theory Spec2Isabelle
  imports Complex_Main
begin

section \<open>The pie/donut renderer of \<^verbatim>\<open>src/pie.py\<close>\<close>

text \<open>
  Conventions of the embedding.
  \<^item> A Python \<^verbatim>\<open>str\<close> is a list of Unicode code points (\<open>ustring\<close>), so that
    \<open>length\<close> counts what Python's \<^verbatim>\<open>len\<close> counts.  The values \<^verbatim>\<open>None\<close> and
    \<^verbatim>\<open>""\<close> of \<^verbatim>\<open>border\<close> and \<^verbatim>\<open>title\<close>, and \<^verbatim>\<open>None\<close> and \<^verbatim>\<open>[]\<close> of
    \<^verbatim>\<open>chars\<close>, are all falsy and only ever tested for truth: each pair is the empty list.
  \<^item> \<^verbatim>\<open>border\<close> and the elements of \<^verbatim>\<open>chars\<close> are strings of any length, as
    the source accepts them; a property that needs single characters says so.
  \<^item> \<^verbatim>\<open>counts\<close> holds Python integers (\<open>int\<close>, unbounded), \<^verbatim>\<open>radius\<close>,
    \<^verbatim>\<open>samples\<close> and \<^verbatim>\<open>label_max\<close> as well.
  \<^item> A Python \<^verbatim>\<open>float\<close> is idealised as a \<open>real\<close>: rounding, overflow, infinities and
    NaN are not modelled.  \<^verbatim>\<open>math.hypot\<close>, \<^verbatim>\<open>math.atan2\<close> and the float operator
    \<^verbatim>\<open>%\<close> are their mathematical counterparts.
  \<^item> An exception is a value \<open>Inl e\<close> of the result type.
\<close>

subsection \<open>Strings\<close>

type_synonym uchar = nat
type_synonym ustring = "uchar list"

definition ustr :: "string \<Rightarrow> ustring" where
  "ustr s = map of_char s"

datatype py_error = ZeroDivisionError | IndexError

subsection \<open>Parameters (lines 1-16)\<close>

record options =
  radius :: int
  hole :: real
  start_at_12 :: bool
  clockwise :: bool
  samples :: int
  y_scale :: real
  border :: ustring
  border_softness :: real
  chars :: "ustring list"
  show_legend :: bool
  label_mode :: ustring
  label_max :: int
  title :: ustring

definition default_options :: options where
  "default_options =
     \<lparr>radius = 12, hole = 0, start_at_12 = True, clockwise = True, samples = 4,
      y_scale = 24 / 10, border = [183], border_softness = 45 / 100, chars = [],
      show_legend = True, label_mode = ustr ''percent'', label_max = 4, title = []\<rparr>"

subsection \<open>Wedges (lines 75-88)\<close>

text \<open>The list \<^verbatim>\<open>[label, angle_start, angle_end, fill_char, fraction, value]\<close>.\<close>

record wedge =
  w_label :: ustring
  angle_start :: real
  angle_end :: real
  fill_char :: ustring
  fraction :: real
  w_value :: int

definition default_chars :: "ustring list" where
  "default_chars = [[9608], [9617], [9618], [9619], [9641], [9638], [9639], [9640], [9636], [9637]]"

text \<open>\<^verbatim>\<open>glyphs = (chars or default_chars)\<close>\<close>

definition glyphs_of :: "ustring list \<Rightarrow> ustring list" where
  "glyphs_of cs = (if cs = [] then default_chars else cs)"

text \<open>
  The loop \<^verbatim>\<open>for i, (lab, val) in enumerate(zip(labels, counts))\<close>, with the loop index
  and the running angle \<^verbatim>\<open>cum\<close> as arguments.
\<close>

fun build_wedges :: "ustring list \<Rightarrow> real \<Rightarrow> nat \<Rightarrow> real \<Rightarrow> (ustring \<times> int) list \<Rightarrow> wedge list" where
  "build_wedges glyphs tot i cum [] = []"
| "build_wedges glyphs tot i cum ((lab, val) # rest) =
     (let frac = (if tot \<noteq> 0 then real_of_int val / tot else 0);
          ang = 2 * pi * frac
      in \<lparr>w_label = lab, angle_start = cum, angle_end = cum + ang,
          fill_char = glyphs ! (i mod length glyphs), fraction = frac, w_value = val\<rparr>
         # build_wedges glyphs tot (Suc i) (cum + ang) rest)"

definition wedges_of :: "ustring list \<Rightarrow> ustring list \<Rightarrow> int list \<Rightarrow> wedge list" where
  "wedges_of cs labels counts =
     build_wedges (glyphs_of cs) (real_of_int (sum_list counts)) 0 0 (zip labels counts)"

text \<open>The validation of lines 69-73, as a predicate: the input reaches the wedge loop.\<close>

definition valid_input :: "ustring list \<Rightarrow> int list \<Rightarrow> bool" where
  "valid_input labels counts \<longleftrightarrow>
     labels \<noteq> [] \<and> counts \<noteq> [] \<and> length labels = length counts \<and> 0 < sum_list counts"

subsection \<open>Orientation (lines 93-100)\<close>

text \<open>Python's \<^verbatim>\<open>a % m\<close> on floats, for a positive modulus: the result has the sign of \<open>m\<close>.\<close>

definition pymod :: "real \<Rightarrow> real \<Rightarrow> real" where
  "pymod a m = a - m * of_int \<lfloor>a / m\<rfloor>"

definition orient :: "bool \<Rightarrow> bool \<Rightarrow> real \<Rightarrow> real" where
  "orient s12 cw a =
     (let a1 = (if a < 0 then a + 2 * pi else a);
          a2 = (if s12 then pymod (a1 - pi / 2) (2 * pi) else a1);
          a3 = (if cw then pymod (- a2) (2 * pi) else a2)
      in a3)"

text \<open>The inverse transform, used to state that \<open>orient\<close> is onto.\<close>

definition orient_inv :: "bool \<Rightarrow> bool \<Rightarrow> real \<Rightarrow> real" where
  "orient_inv s12 cw b =
     (let b1 = (if cw then pymod (- b) (2 * pi) else b);
          b2 = (if s12 then pymod (b1 + pi / 2) (2 * pi) else b1)
      in b2)"

subsection \<open>Wedge lookup (lines 111-117)\<close>

text \<open>
  The loop of \<^verbatim>\<open>wedge_char\<close> returns at the first wedge that matches; \<^verbatim>\<open>last\<close> is true
  of the final element only.  \<open>wedge_find\<close> is the loop, \<open>None\<close> when it falls
  through to the safety net \<^verbatim>\<open>return " "\<close>.
\<close>

fun wedge_find :: "wedge list \<Rightarrow> real \<Rightarrow> wedge option" where
  "wedge_find [] ang = None"
| "wedge_find (w # ws) ang =
     (let a0 = angle_start w; a1 = angle_end w; last = (ws = [])
      in if (a0 \<le> ang \<and> ang < a1) \<or> (last \<and> (ang \<ge> a0 \<or> ang < pymod a1 (2 * pi)))
         then Some w
         else wedge_find ws ang)"

definition wedge_char :: "wedge list \<Rightarrow> real \<Rightarrow> ustring" where
  "wedge_char ws ang = (case wedge_find ws ang of Some w \<Rightarrow> fill_char w | None \<Rightarrow> [32])"


text \<open>An angle lies in the raw interval \<open>[angle_start, angle_end)\<close> of a wedge.\<close>

definition in_wedge :: "real \<Rightarrow> wedge \<Rightarrow> bool" where
  "in_wedge a w \<longleftrightarrow> angle_start w \<le> a \<and> a < angle_end w"

subsection \<open>Sampling a cell (lines 103-146)\<close>

text \<open>\<^verbatim>\<open>math.hypot\<close> and \<^verbatim>\<open>math.atan2\<close> (the library functions, over the reals).\<close>

definition hypot :: "real \<Rightarrow> real \<Rightarrow> real" where
  "hypot x y = sqrt (x\<^sup>2 + y\<^sup>2)"

definition atan2 :: "real \<Rightarrow> real \<Rightarrow> real" where
  "atan2 y x =
     (if 0 < x then arctan (y / x)
      else if x < 0 then (if 0 \<le> y then arctan (y / x) + pi else arctan (y / x) - pi)
      else if 0 < y then pi / 2
      else if y < 0 then - (pi / 2)
      else 0)"

text \<open>\<^verbatim>\<open>inner = max(0.0, min(0.99, float(hole))) * radius\<close>\<close>

definition inner :: "options \<Rightarrow> real" where
  "inner opt = max 0 (min (99 / 100) (hole opt)) * real_of_int (radius opt)"

text \<open>
  \<^verbatim>\<open>step = 1.0 / (samples + 1)\<close>, \<^verbatim>\<open>offsets = [(k+1)*step - 0.5 for k in range(samples)]\<close>.
  The division raises when \<^verbatim>\<open>samples = -1\<close>; \<open>pie\<close> below returns that error before
  the offsets are used.
\<close>

definition offsets :: "options \<Rightarrow> real list" where
  "offsets opt =
     (let step = 1 / real_of_int (samples opt + 1)
      in map (\<lambda>k. (real k + 1) * step - 1 / 2) [0..<nat (samples opt)])"

text \<open>The three counters of a cell: the dictionary \<^verbatim>\<open>votes\<close> in insertion order.\<close>

record tally =
  votes :: "(ustring \<times> nat) list"
  border_vote :: nat
  inside :: nat

text \<open>\<^verbatim>\<open>votes[ch] = votes.get(ch,0)+1\<close>: a new key goes to the end.\<close>

fun vote :: "ustring \<Rightarrow> (ustring \<times> nat) list \<Rightarrow> (ustring \<times> nat) list" where
  "vote ch [] = [(ch, 1)]"
| "vote ch ((k, n) # kvs) = (if k = ch then (k, n + 1) # kvs else (k, n) # vote ch kvs)"

text \<open>Whether the sample at offsets \<open>(dx, dy)\<close> of cell \<open>(i, j)\<close> is skipped (line 136).\<close>

definition sample_r :: "options \<Rightarrow> int \<Rightarrow> int \<Rightarrow> real \<Rightarrow> real \<Rightarrow> real" where
  "sample_r opt i j dy dx = hypot (real_of_int i + dx) ((real_of_int j + dy) / y_scale opt)"

definition discarded :: "options \<Rightarrow> real \<Rightarrow> bool" where
  "discarded opt r \<longleftrightarrow>
     r > real_of_int (radius opt) + 1 / 1000000 \<or> r < inner opt - 1 / 1000000"

definition sample_char :: "options \<Rightarrow> wedge list \<Rightarrow> int \<Rightarrow> int \<Rightarrow> real \<Rightarrow> real \<Rightarrow> ustring" where
  "sample_char opt ws i j dy dx =
     (let x = real_of_int i + dx; y = (real_of_int j + dy) / y_scale opt
      in wedge_char ws (orient (start_at_12 opt) (clockwise opt) (atan2 y x)))"

definition near_border :: "options \<Rightarrow> real \<Rightarrow> bool" where
  "near_border opt r \<longleftrightarrow>
     border opt \<noteq> [] \<and>
     (\<bar>r - real_of_int (radius opt)\<bar> < border_softness opt \<or>
      (inner opt > 0 \<and> \<bar>r - inner opt\<bar> < border_softness opt))"

text \<open>The body of the two sampling loops (lines 131-146).\<close>

definition sample :: "options \<Rightarrow> wedge list \<Rightarrow> int \<Rightarrow> int \<Rightarrow> real \<Rightarrow> real \<Rightarrow> tally \<Rightarrow> tally" where
  "sample opt ws i j dy dx t =
     (let r = sample_r opt i j dy dx
      in if discarded opt r then t
         else \<lparr>votes = vote (sample_char opt ws i j dy dx) (votes t),
               border_vote = (if near_border opt r then border_vote t + 1 else border_vote t),
               inside = inside t + 1\<rparr>)"

text \<open>\<^verbatim>\<open>for dy in offsets: for dx in offsets: ...\<close>, from empty counters.\<close>

definition cell_tally :: "options \<Rightarrow> wedge list \<Rightarrow> int \<Rightarrow> int \<Rightarrow> tally" where
  "cell_tally opt ws i j =
     fold (\<lambda>dy t. fold (\<lambda>dx. sample opt ws i j dy dx) (offsets opt) t) (offsets opt)
       \<lparr>votes = [], border_vote = 0, inside = 0\<rparr>"

subsection \<open>Resolving a cell (lines 148-158)\<close>

text \<open>
  \<^verbatim>\<open>max(votes.items(), key=lambda kv: kv[1])\<close>: the running maximum is replaced
  only by a strictly larger count.
\<close>

fun max_by_count :: "ustring \<times> nat \<Rightarrow> (ustring \<times> nat) list \<Rightarrow> ustring \<times> nat" where
  "max_by_count best [] = best"
| "max_by_count best (kv # kvs) = max_by_count (if snd best < snd kv then kv else best) kvs"

text \<open>
  \<^verbatim>\<open>max\<close> of an empty dictionary would raise; the dictionary is not empty once a
  sample was counted (lemma \<open>votes_nonempty\<close>), and the model returns the empty
  string there.
\<close>

definition top_char :: "(ustring \<times> nat) list \<Rightarrow> ustring" where
  "top_char vs = (case vs of [] \<Rightarrow> [] | kv # kvs \<Rightarrow> fst (max_by_count kv kvs))"

definition cell_char :: "options \<Rightarrow> tally \<Rightarrow> ustring" where
  "cell_char opt t =
     (if inside t = 0 then [32]
      else let ch = top_char (votes t)
           in if border opt \<noteq> [] \<and> border_vote t > inside t div 3 then border opt else ch)"

definition cell :: "options \<Rightarrow> wedge list \<Rightarrow> int \<Rightarrow> int \<Rightarrow> ustring" where
  "cell opt ws i j = cell_char opt (cell_tally opt ws i j)"

text \<open>The drawing loop (lines 120-159): one string per \<open>j\<close>, one cell per \<open>i\<close>.\<close>

definition raster :: "options \<Rightarrow> wedge list \<Rightarrow> ustring list" where
  "raster opt ws =
     map (\<lambda>j. concat (map (\<lambda>i. cell opt ws i j) [- radius opt..radius opt]))
       [- radius opt..radius opt]"

subsection \<open>Number formatting\<close>

text \<open>\<^verbatim>\<open>str\<close> of an integer, and the format \<^verbatim>\<open>:.1f\<close> (round half to even).\<close>

fun digits :: "nat \<Rightarrow> ustring" where
  "digits n = (if n < 10 then [48 + n] else digits (n div 10) @ [48 + n mod 10])"

declare digits.simps [simp del]

definition str_int :: "int \<Rightarrow> ustring" where
  "str_int v = (if v < 0 then 45 # digits (nat (- v)) else digits (nat v))"

definition round_half_even :: "real \<Rightarrow> int" where
  "round_half_even x =
     (let f = \<lfloor>x\<rfloor>; d = x - of_int f
      in if d < 1 / 2 then f else if 1 / 2 < d then f + 1 else if even f then f else f + 1)"

definition fmt_1f :: "real \<Rightarrow> ustring" where
  "fmt_1f x =
     (let t = nat (round_half_even (\<bar>x\<bar> * 10))
      in (if x < 0 then [45] else []) @ digits (t div 10) @ [46] @ digits (t mod 10))"

subsection \<open>Label overlay (lines 161-225)\<close>

definition fmt :: "options \<Rightarrow> ustring \<Rightarrow> real \<Rightarrow> int \<Rightarrow> ustring" where
  "fmt opt lbl fr val =
     (if label_mode opt = ustr ''percent'' then lbl @ [32] @ fmt_1f (fr * 100) @ ustr ''%''
      else if label_mode opt = ustr ''value'' then lbl @ [32] @ str_int val
      else if label_mode opt = ustr ''both''
        then lbl @ [32] @ str_int val @ ustr '' ('' @ fmt_1f (fr * 100) @ ustr ''%)''
      else lbl @ [32] @ fmt_1f (fr * 100) @ ustr ''%'')"

text \<open>The slice \<^verbatim>\<open>xs[:n]\<close>, a negative \<open>n\<close> counting from the end.\<close>

definition take_py :: "int \<Rightarrow> 'a list \<Rightarrow> 'a list" where
  "take_py n xs = (if 0 \<le> n then take (nat n) xs else take (nat (int (length xs) + n)) xs)"

text \<open>
  \<^verbatim>\<open>sorted(wedges, key=lambda w:w[4], reverse=True)[:label_max]\<close>: a stable sort by
  descending fraction.
\<close>

definition ordered :: "options \<Rightarrow> wedge list \<Rightarrow> wedge list" where
  "ordered opt ws = take_py (label_max opt) (sort_key (\<lambda>w. - fraction w) ws)"

datatype align = AlignLeft | AlignRight | AlignOther

text \<open>The target row and alignment of rank \<open>k\<close> in a grid of \<open>h\<close> rows (lines 175-181).\<close>

definition target :: "nat \<Rightarrow> nat \<Rightarrow> nat \<times> align" where
  "target h k =
     (let mid = int h div 2;
          offset = (int k div 2 + 1) * (if 2 \<le> k then 2 else 1);
          row_idx = (if k mod 2 = 0 then mid - offset else mid + offset);
          al = (if k mod 2 = 0 then AlignLeft else AlignRight)
      in (nat (max 0 (min (int h - 1) row_idx)), al))"

text \<open>\<^verbatim>\<open>next((k for k,c in enumerate(row) if c!=" "), None)\<close>\<close>

fun first_nonblank :: "ustring \<Rightarrow> nat option" where
  "first_nonblank [] = None"
| "first_nonblank (c # cs) = (if c \<noteq> 32 then Some 0 else map_option Suc (first_nonblank cs))"

text \<open>\<^verbatim>\<open>len(row)-1-next((k for k,c in enumerate(reversed(row)) if c!=" "), 0)\<close>\<close>

definition last_nonblank :: "ustring \<Rightarrow> int" where
  "last_nonblank row =
     int (length row) - 1 - int (case first_nonblank (rev row) of None \<Rightarrow> 0 | Some k \<Rightarrow> k)"

text \<open>The writing loop of lines 215-218.\<close>

fun write_text :: "ustring \<Rightarrow> int \<Rightarrow> ustring \<Rightarrow> ustring" where
  "write_text row col [] = row"
| "write_text row col (ch # rest) =
     write_text (if 0 \<le> col \<and> col < int (length row) then row[nat col := ch] else row)
       (col + 1) rest"

text \<open>\<^verbatim>\<open>place\<close> on the characters of one row; an early \<^verbatim>\<open>return\<close> leaves the row as it is.\<close>

definition place_row :: "ustring \<Rightarrow> ustring \<Rightarrow> align \<Rightarrow> ustring" where
  "place_row row text al =
     (case first_nonblank row of
        None \<Rightarrow> row
      | Some f \<Rightarrow>
          let first = int f; last = last_nonblank row
          in if last \<le> first then row
             else
               let left_limit = first + 1;
                   right_limit = last - 1;
                   text1 = [32] @ text @ [32];
                   text2 = (if int (length text1) > right_limit - left_limit + 1
                            then take (nat (max 0 (right_limit - left_limit + 1))) text1
                            else text1);
                   start = (case al of
                              AlignLeft \<Rightarrow> left_limit
                            | AlignRight \<Rightarrow> right_limit - int (length text2) + 1
                            | AlignOther \<Rightarrow>
                                left_limit + ((right_limit - left_limit + 1) - int (length text2)) div 2)
               in write_text row start text2)"

text \<open>\<^verbatim>\<open>place\<close> on the grid: \<^verbatim>\<open>lines[row_idx]\<close> raises when the index is out of range.\<close>

definition place :: "ustring list \<Rightarrow> nat \<Rightarrow> ustring \<Rightarrow> align \<Rightarrow> py_error + ustring list" where
  "place lines row_idx text al =
     (if row_idx < length lines
      then Inr (lines[row_idx := place_row (lines ! row_idx) text al])
      else Inl IndexError)"

text \<open>\<^verbatim>\<open>for (w,(row_idx,align)) in zip(ordered,targets): place(...)\<close>\<close>

fun place_all :: "options \<Rightarrow> ustring list \<Rightarrow> (wedge \<times> nat \<times> align) list \<Rightarrow> py_error + ustring list" where
  "place_all opt lines [] = Inr lines"
| "place_all opt lines ((w, row_idx, al) # rest) =
     (case place lines row_idx (fmt opt (w_label w) (fraction w) (w_value w)) al of
        Inl e \<Rightarrow> Inl e
      | Inr lines' \<Rightarrow> place_all opt lines' rest)"

definition overlay :: "options \<Rightarrow> wedge list \<Rightarrow> ustring list \<Rightarrow> py_error + ustring list" where
  "overlay opt ws lines =
     (if label_max opt \<noteq> 0 \<and> 0 < length ws
      then let ord = ordered opt ws;
               targets = map (target (length lines)) [0..<length ord]
           in place_all opt lines (zip ord targets)
      else Inr lines)"

subsection \<open>Legend, title and assembly (lines 227-243)\<close>

definition legend_part :: "wedge \<Rightarrow> ustring" where
  "legend_part w =
     fill_char w @ [32] @ w_label w @ [32] @ str_int (w_value w) @ ustr '' ('' @
     fmt_1f (fraction w * 100) @ ustr ''%)''"

text \<open>\<^verbatim>\<open>sep.join(xs)\<close>\<close>

fun join :: "ustring \<Rightarrow> ustring list \<Rightarrow> ustring" where
  "join sep [] = []"
| "join sep [x] = x"
| "join sep (x # y # ys) = x @ sep @ join sep (y # ys)"

text \<open>\<^verbatim>\<open>s.center(width, fill)\<close>: an odd margin puts the extra fill on the left exactly
  when the width is odd too.\<close>

definition center :: "ustring \<Rightarrow> int \<Rightarrow> uchar \<Rightarrow> ustring" where
  "center s width fillch =
     (if width \<le> int (length s) then s
      else let marg = nat (width - int (length s));
               left = marg div 2 + (if odd marg \<and> odd width then 1 else 0)
           in replicate left fillch @ s @ replicate (marg - left) fillch)"

definition invalid_input_msg :: ustring where
  "invalid_input_msg = ustr ''Invalid input: labels and counts must be same-length non-empty lists.''"

definition no_data_msg :: ustring where
  "no_data_msg = ustr ''No data.''"

definition legend_lines :: "options \<Rightarrow> wedge list \<Rightarrow> ustring list" where
  "legend_lines opt ws =
     (if show_legend opt then [join (ustr '' | '') (map legend_part ws)] else [])"

definition title_lines :: "options \<Rightarrow> ustring list" where
  "title_lines opt =
     (if title opt \<noteq> [] then [center (title opt) (radius opt * 2 + 20) 61, []] else [])"

text \<open>
  The whole function.  The two divisions that can raise are \<^verbatim>\<open>1.0 / (samples + 1)\<close>
  (line 107) and \<^verbatim>\<open>(j+dy)/y_scale\<close> (line 132); the second is reached exactly when both
  loops have an iteration, that is when \<open>0 \<le> radius\<close> and \<open>0 < samples\<close>.
\<close>

definition pie :: "ustring list \<Rightarrow> int list \<Rightarrow> options \<Rightarrow> py_error + ustring" where
  "pie labels counts opt =
     (if labels = [] \<or> counts = [] \<or> length labels \<noteq> length counts
      then Inr invalid_input_msg
      else if real_of_int (sum_list counts) \<le> 0 then Inr no_data_msg
      else
        let ws = wedges_of (chars opt) labels counts
        in if samples opt + 1 = 0 then Inl ZeroDivisionError
           else if 0 \<le> radius opt \<and> 0 < samples opt \<and> y_scale opt = 0 then Inl ZeroDivisionError
           else (case overlay opt ws (raster opt ws) of
                   Inl e \<Rightarrow> Inl e
                 | Inr lines \<Rightarrow>
                     Inr (join [10] (title_lines opt @ lines @ legend_lines opt ws))))"

section \<open>Notions used to state the properties\<close>

text \<open>
  The sample points of a cell in scan order (outer loop over the vertical offsets, inner
  loop over the horizontal ones), those that are counted as inside, the glyphs they vote
  for, and the number of them that vote for the border.
\<close>

definition scan_points :: "options \<Rightarrow> (real \<times> real) list" where
  "scan_points opt = concat (map (\<lambda>dy. map (\<lambda>dx. (dy, dx)) (offsets opt)) (offsets opt))"

definition kept :: "options \<Rightarrow> int \<Rightarrow> int \<Rightarrow> (real \<times> real) list" where
  "kept opt i j =
     filter (\<lambda>(dy, dx). \<not> discarded opt (sample_r opt i j dy dx)) (scan_points opt)"

definition scan_chars :: "options \<Rightarrow> wedge list \<Rightarrow> int \<Rightarrow> int \<Rightarrow> ustring list" where
  "scan_chars opt ws i j = map (\<lambda>(dy, dx). sample_char opt ws i j dy dx) (kept opt i j)"

definition scan_border :: "options \<Rightarrow> int \<Rightarrow> int \<Rightarrow> nat" where
  "scan_border opt i j =
     length (filter (\<lambda>(dy, dx). near_border opt (sample_r opt i j dy dx)) (kept opt i j))"

text \<open>The glyphs in the order of their first vote.\<close>

definition firsts :: "'a list \<Rightarrow> 'a list" where
  "firsts cs = rev (remdups (rev cs))"

text \<open>
  The rendered span of a row: the columns from the first to the last character that is
  not a blank; no column when the row is blank.
\<close>

definition in_span :: "ustring \<Rightarrow> nat \<Rightarrow> bool" where
  "in_span row c =
     (case first_nonblank row of
        None \<Rightarrow> False
      | Some f \<Rightarrow> f \<le> c \<and> int c \<le> last_nonblank row)"

section \<open>Example inputs\<close>

text \<open>The default options on a grid of radius 1 with one sample per cell.\<close>

definition opt1 :: options where
  "opt1 = default_options\<lparr>radius := 1, samples := 1\<rparr>"

text \<open>A donut of radius 2 whose inner radius is \<open>1.0000002\<close>, one sample per cell.\<close>

definition opt8 :: options where
  "opt8 = default_options\<lparr>radius := 2, hole := 5000001 / 10000000, samples := 1\<rparr>"

text \<open>The scenario of the specification: the default options with radius 4.\<close>

definition opt5 :: options where
  "opt5 = default_options\<lparr>radius := 4\<rparr>"

section \<open>Properties\<close>


subsection \<open>Orientation\<close>

lemma pymod_id: "0 \<le> a \<Longrightarrow> a < m \<Longrightarrow> pymod a m = a"
proof -
  assume a: "0 \<le> a" "a < m"
  then have "\<lfloor>a / m\<rfloor> = 0"
    by (simp add: floor_eq_iff)
  then show ?thesis by (simp add: pymod_def)
qed

lemma pymod_wrap: "- m \<le> a \<Longrightarrow> a < 0 \<Longrightarrow> pymod a m = a + m"
proof -
  assume a: "- m \<le> a" "a < 0"
  then have m: "0 < m" by linarith
  have "\<lfloor>a / m\<rfloor> = - 1"
    using a m by (simp add: floor_eq_iff pos_le_divide_eq pos_divide_less_eq)
  then show ?thesis by (simp add: pymod_def)
qed

lemma pymod_range: "0 < m \<Longrightarrow> 0 \<le> pymod a m \<and> pymod a m < m"
  using floor_divide_lower [of m a] floor_divide_upper [of m a]
  by (simp add: pymod_def algebra_simps)

lemma pymod_neg: "0 \<le> a \<Longrightarrow> a < m \<Longrightarrow> pymod (- a) m = (if a = 0 then 0 else m - a)"
  using pymod_id [of "0" m] pymod_wrap [of m "- a"] by auto

lemma pymod_shift_down:
  "0 \<le> a \<Longrightarrow> a < 4 * q \<Longrightarrow> pymod (a - q) (4 * q) = (if a < q then a + 3 * q else a - q)"
  using pymod_id [of "a - q" "4 * q"] pymod_wrap [of "4 * q" "a - q"] by auto

lemma pymod_shift_up:
  "0 \<le> a \<Longrightarrow> a < 4 * q \<Longrightarrow> pymod (a + q) (4 * q) = (if a < 3 * q then a + q else a - 3 * q)"
proof (cases "a < 3 * q")
  case True
  assume "0 \<le> a" "a < 4 * q"
  with True show ?thesis using pymod_id [of "a + q" "4 * q"] by auto
next
  case False
  assume a: "0 \<le> a" "a < 4 * q"
  then have q: "0 < q" by linarith
  have "\<lfloor>(a + q) / (4 * q)\<rfloor> = 1"
    using a q False by (simp add: floor_eq_iff pos_le_divide_eq pos_divide_less_eq)
  with False show ?thesis by (simp add: pymod_def)
qed

lemma orient_range:
  assumes "0 \<le> a" "a < 2 * pi"
  shows "0 \<le> orient s c a \<and> orient s c a < 2 * pi"
  using assms pymod_range [of "2 * pi"] by (auto simp: orient_def Let_def)

lemma orient_inv_range:
  assumes "0 \<le> b" "b < 2 * pi"
  shows "0 \<le> orient_inv s c b \<and> orient_inv s c b < 2 * pi"
  using assms pymod_range [of "2 * pi"] by (auto simp: orient_inv_def Let_def)

lemma orient_nonneg: "- (2 * pi) \<le> a \<Longrightarrow> 0 \<le> orient s c a"
  using pymod_range [of "2 * pi"] by (auto simp: orient_def Let_def)

lemma pymod_quarter_down:
  "0 \<le> a \<Longrightarrow> a < 2 * pi \<Longrightarrow>
   pymod (a - pi / 2) (2 * pi) = (if a < pi / 2 then a + 3 * pi / 2 else a - pi / 2)"
  using pymod_shift_down [of a "pi / 2"] by simp

lemma pymod_quarter_up:
  "0 \<le> a \<Longrightarrow> a < 2 * pi \<Longrightarrow>
   pymod (a + pi / 2) (2 * pi) = (if a < 3 * pi / 2 then a + pi / 2 else a - 3 * pi / 2)"
  using pymod_shift_up [of a "pi / 2"] by simp

lemma pymod_flip:
  "0 \<le> a \<Longrightarrow> a < 2 * pi \<Longrightarrow> pymod (- a) (2 * pi) = (if a = 0 then 0 else 2 * pi - a)"
  by (rule pymod_neg)

lemma orient_inv_orient:
  assumes "0 \<le> a" "a < 2 * pi"
  shows "orient_inv s c (orient s c a) = a"
proof -
  have q: "0 < pi" by simp
  show ?thesis
  proof (cases s; cases c)
    show "s \<Longrightarrow> c \<Longrightarrow> ?thesis"
      using assms q 
      by (auto simp: orient_def orient_inv_def Let_def pymod_quarter_down pymod_quarter_up pymod_flip)
    show "s \<Longrightarrow> \<not> c \<Longrightarrow> ?thesis"
      using assms q 
      by (auto simp: orient_def orient_inv_def Let_def pymod_quarter_down pymod_quarter_up pymod_flip)
    show "\<not> s \<Longrightarrow> c \<Longrightarrow> ?thesis"
      using assms q 
      by (auto simp: orient_def orient_inv_def Let_def pymod_quarter_down pymod_quarter_up pymod_flip)
    show "\<not> s \<Longrightarrow> \<not> c \<Longrightarrow> ?thesis"
      using assms q 
      by (auto simp: orient_def orient_inv_def Let_def pymod_quarter_down pymod_quarter_up pymod_flip)
  qed
qed

lemma orient_orient_inv:
  assumes "0 \<le> b" "b < 2 * pi"
  shows "orient s c (orient_inv s c b) = b"
proof -
  have q: "0 < pi" by simp
  show ?thesis
  proof (cases s; cases c)
    show "s \<Longrightarrow> c \<Longrightarrow> ?thesis"
      using assms q 
      by (auto simp: orient_def orient_inv_def Let_def pymod_quarter_down pymod_quarter_up pymod_flip)
    show "s \<Longrightarrow> \<not> c \<Longrightarrow> ?thesis"
      using assms q 
      by (auto simp: orient_def orient_inv_def Let_def pymod_quarter_down pymod_quarter_up pymod_flip)
    show "\<not> s \<Longrightarrow> c \<Longrightarrow> ?thesis"
      using assms q 
      by (auto simp: orient_def orient_inv_def Let_def pymod_quarter_down pymod_quarter_up pymod_flip)
    show "\<not> s \<Longrightarrow> \<not> c \<Longrightarrow> ?thesis"
      using assms q 
      by (auto simp: orient_def orient_inv_def Let_def pymod_quarter_down pymod_quarter_up pymod_flip)
  qed
qed

subsection \<open>Wedges\<close>

lemma atan2_range: "- pi \<le> atan2 y x \<and> atan2 y x \<le> pi"
proof -
  have b: "- (pi / 2) < arctan (y / x)" "arctan (y / x) < pi / 2"
    by (rule arctan_lbound, rule arctan_ubound)
  have neg: "x < 0 \<Longrightarrow> 0 \<le> y \<Longrightarrow> arctan (y / x) \<le> 0"
    by (simp add: arctan_le_zero_iff divide_le_0_iff)
  have pos: "x < 0 \<Longrightarrow> y < 0 \<Longrightarrow> 0 \<le> arctan (y / x)"
    by (simp add: zero_le_arctan_iff zero_le_divide_iff)
  show ?thesis
    using b neg pos by (auto simp: atan2_def)
qed

lemma in_wedge_record [simp]:
  "in_wedge a \<lparr>w_label = l, angle_start = s, angle_end = e, fill_char = g, fraction = f, w_value = v\<rparr>
     \<longleftrightarrow> s \<le> a \<and> a < e"
  by (simp add: in_wedge_def)

lemma length_build_wedges [simp]: "length (build_wedges gl tot i cum xs) = length xs"
  by (induction xs arbitrary: i cum) (auto simp: Let_def)

lemma build_wedges_labels: "map w_label (build_wedges gl tot i cum xs) = map fst xs"
  by (induction xs arbitrary: i cum) (auto simp: Let_def)

lemma build_wedges_values: "map w_value (build_wedges gl tot i cum xs) = map snd xs"
  by (induction xs arbitrary: i cum) (auto simp: Let_def)

lemma build_wedges_nth:
  "k < length xs \<Longrightarrow> tot \<noteq> 0 \<Longrightarrow>
   build_wedges gl tot i cum xs ! k =
     \<lparr>w_label = fst (xs ! k),
      angle_start = cum + 2 * pi * (real_of_int (sum_list (map snd (take k xs))) / tot),
      angle_end = cum + 2 * pi * (real_of_int (sum_list (map snd (take (Suc k) xs))) / tot),
      fill_char = gl ! ((i + k) mod length gl),
      fraction = real_of_int (snd (xs ! k)) / tot,
      w_value = snd (xs ! k)\<rparr>"
proof (induction xs arbitrary: i cum k)
  case Nil
  then show ?case by simp
next
  case (Cons x xs)
  obtain lab val where x: "x = (lab, val)" by (cases x)
  show ?case
  proof (cases k)
    case 0
    then show ?thesis using Cons.prems x by (simp add: Let_def)
  next
    case (Suc m)
    then have m: "m < length xs" using Cons.prems by simp
    show ?thesis
      using Cons.IH [OF m Cons.prems(2), of "Suc i" "cum + 2 * pi * (real_of_int val / tot)"] Suc x Cons.prems(2)
      by (simp add: Let_def algebra_simps add_divide_distrib)
  qed
qed

lemma build_wedges_below:
  "\<forall>v \<in> set (map snd xs). 0 \<le> v \<Longrightarrow> 0 < tot \<Longrightarrow> a < cum \<Longrightarrow>
   filter (in_wedge a) (build_wedges gl tot i cum xs) = []"
proof (induction xs arbitrary: i cum)
  case Nil
  then show ?case by simp
next
  case (Cons x xs)
  obtain lab val where x: "x = (lab, val)" by (cases x)
  have v: "0 \<le> val" using Cons.prems(1) x by simp
  have ang: "0 \<le> 2 * pi * (real_of_int val / tot)" using v Cons.prems(2) by simp
  have rest: "filter (in_wedge a) (build_wedges gl tot (Suc i) (cum + 2 * pi * (real_of_int val / tot)) xs) = []"
    using Cons.prems ang by (intro Cons.IH) auto
  show ?case using rest Cons.prems x by (simp add: Let_def)
qed

lemma build_wedges_cover:
  "\<forall>v \<in> set (map snd xs). 0 \<le> v \<Longrightarrow> 0 < tot \<Longrightarrow> cum \<le> a \<Longrightarrow>
   a < cum + 2 * pi * (real_of_int (sum_list (map snd xs)) / tot) \<Longrightarrow>
   length (filter (in_wedge a) (build_wedges gl tot i cum xs)) = 1"
proof (induction xs arbitrary: i cum)
  case Nil
  then show ?case by simp
next
  case (Cons x xs)
  obtain lab val where x: "x = (lab, val)" by (cases x)
  let ?c = "cum + 2 * pi * (real_of_int val / tot)"
  have nn: "\<forall>v \<in> set (map snd xs). 0 \<le> v" using Cons.prems(1) by simp
  show ?case
  proof (cases "a < ?c")
    case True
    have "filter (in_wedge a) (build_wedges gl tot (Suc i) ?c xs) = []"
      using nn Cons.prems(2) True by (rule build_wedges_below)
    then show ?thesis using True Cons.prems x by (simp add: Let_def)
  next
    case False
    have "a < ?c + 2 * pi * (real_of_int (sum_list (map snd xs)) / tot)"
      using Cons.prems(4) x by (simp add: algebra_simps add_divide_distrib)
    then have "length (filter (in_wedge a) (build_wedges gl tot (Suc i) ?c xs)) = 1"
      using nn Cons.prems(2) False by (intro Cons.IH) auto
    then show ?thesis using False Cons.prems x by (simp add: Let_def)
  qed
qed

lemma wedge_find_build:
  "xs \<noteq> [] \<Longrightarrow> cum \<le> ang \<Longrightarrow>
   \<exists>w \<in> set (build_wedges gl tot i cum xs). wedge_find (build_wedges gl tot i cum xs) ang = Some w"
proof (induction xs arbitrary: i cum)
  case Nil
  then show ?case by simp
next
  case (Cons x xs)
  obtain lab val where x: "x = (lab, val)" by (cases x)
  let ?frac = "if tot \<noteq> 0 then real_of_int val / tot else 0"
  let ?c = "cum + 2 * pi * ?frac"
  show ?case
  proof (cases "xs = []")
    case True
    then show ?thesis using Cons.prems x by (simp add: Let_def)
  next
    case False
    show ?thesis
    proof (cases "ang < ?c")
      case True
      then show ?thesis using Cons.prems x by (simp add: Let_def)
    next
      case ge: False
      then have "?c \<le> ang" by simp
      from Cons.IH [OF False this, of "Suc i"] ge False x show ?thesis
        by (auto simp: Let_def)
    qed
  qed
qed

subsection \<open>Votes and the maximum\<close>

lemma firsts_snoc: "firsts (cs @ [c]) = (if c \<in> set cs then firsts cs else firsts cs @ [c])"
  by (simp add: firsts_def)

lemma set_firsts [simp]: "set (firsts cs) = set cs"
  by (simp add: firsts_def)

lemma distinct_firsts [simp]: "distinct (firsts cs)"
  by (simp add: firsts_def)

lemma firsts_Nil [simp]: "firsts cs = [] \<longleftrightarrow> cs = []"
  by (simp add: firsts_def)

lemma vote_member:
  "c \<in> set ks \<Longrightarrow> distinct ks \<Longrightarrow>
   vote c (map (\<lambda>k. (k, f k)) ks) = map (\<lambda>k. (k, if k = c then f k + 1 else f k)) ks"
  by (induction ks) auto

lemma vote_fresh:
  "c \<notin> set ks \<Longrightarrow> vote c (map (\<lambda>k. (k, f k)) ks) = map (\<lambda>k. (k, f k)) ks @ [(c, 1)]"
  by (induction ks) auto

lemma fold_vote: "fold vote cs [] = map (\<lambda>k. (k, count_list cs k)) (firsts cs)"
proof (induction cs rule: rev_induct)
  case Nil
  then show ?case by (simp add: firsts_def)
next
  case (snoc c cs)
  show ?case
  proof (cases "c \<in> set cs")
    case True
    then show ?thesis
      using snoc by (simp add: firsts_snoc vote_member)
  next
    case False
    then show ?thesis
      using snoc by (auto simp: firsts_snoc vote_fresh count_list_0_iff)
  qed
qed

lemma firsts_split:
  "firsts cs = kpre @ w # kpost \<Longrightarrow>
   \<exists>pre post. cs = pre @ w # post \<and> w \<notin> set pre \<and> set pre \<subseteq> set kpre"
proof (induction cs arbitrary: kpost rule: rev_induct)
  case Nil
  then show ?case by (simp add: firsts_def)
next
  case (snoc c cs)
  show ?case
  proof (cases "c \<in> set cs")
    case True
    with snoc.prems have "firsts cs = kpre @ w # kpost" by (simp add: firsts_snoc)
    from snoc.IH [OF this] obtain pre post where
      "cs = pre @ w # post" "w \<notin> set pre" "set pre \<subseteq> set kpre" by blast
    then have "cs @ [c] = pre @ w # (post @ [c]) \<and> w \<notin> set pre \<and> set pre \<subseteq> set kpre" by simp
    then show ?thesis by blast
  next
    case False
    with snoc.prems have e: "firsts cs @ [c] = kpre @ w # kpost" by (simp add: firsts_snoc)
    show ?thesis
    proof (cases kpost rule: rev_cases)
      case Nil
      with e have "firsts cs = kpre" "c = w" by simp_all
      then have "cs @ [c] = cs @ w # [] \<and> w \<notin> set cs \<and> set cs \<subseteq> set kpre"
        using False by (metis set_firsts append.simps order_refl)
      then show ?thesis by blast
    next
      case (snoc kpost' z)
      with e have "firsts cs = kpre @ w # kpost'" by simp
      from snoc.IH [OF this] obtain pre post where
        "cs = pre @ w # post" "w \<notin> set pre" "set pre \<subseteq> set kpre" by blast
      then have "cs @ [c] = pre @ w # (post @ [c]) \<and> w \<notin> set pre \<and> set pre \<subseteq> set kpre" by simp
      then show ?thesis by blast
    qed
  qed
qed

lemma max_by_count_split:
  "max_by_count best kvs = e \<Longrightarrow>
   (e = best \<and> (\<forall>x \<in> set kvs. snd x \<le> snd best)) \<or>
   (\<exists>A B. kvs = A @ e # B \<and> snd best < snd e \<and>
      (\<forall>x \<in> set A. snd x < snd e) \<and> (\<forall>x \<in> set B. snd x \<le> snd e))"
proof (induction kvs arbitrary: best)
  case Nil
  then show ?case by simp
next
  case (Cons kv kvs)
  show ?case
  proof (cases "snd best < snd kv")
    case True
    with Cons.prems have "max_by_count kv kvs = e" by simp
    from Cons.IH [OF this] show ?thesis
    proof
      assume "e = kv \<and> (\<forall>x \<in> set kvs. snd x \<le> snd kv)"
      then have "kv # kvs = [] @ e # kvs \<and> snd best < snd e \<and>
        (\<forall>x \<in> set []. snd x < snd e) \<and> (\<forall>x \<in> set kvs. snd x \<le> snd e)"
        using True by simp
      then show ?thesis by blast
    next
      assume "\<exists>A B. kvs = A @ e # B \<and> snd kv < snd e \<and>
        (\<forall>x \<in> set A. snd x < snd e) \<and> (\<forall>x \<in> set B. snd x \<le> snd e)"
      then obtain A B where "kvs = A @ e # B" "snd kv < snd e"
        "\<forall>x \<in> set A. snd x < snd e" "\<forall>x \<in> set B. snd x \<le> snd e" by blast
      then have "kv # kvs = (kv # A) @ e # B \<and> snd best < snd e \<and>
        (\<forall>x \<in> set (kv # A). snd x < snd e) \<and> (\<forall>x \<in> set B. snd x \<le> snd e)"
        using True by auto
      then show ?thesis by blast
    qed
  next
    case False
    with Cons.prems have "max_by_count best kvs = e" by simp
    from Cons.IH [OF this] show ?thesis
    proof
      assume "e = best \<and> (\<forall>x \<in> set kvs. snd x \<le> snd best)"
      then show ?thesis using False by auto
    next
      assume "\<exists>A B. kvs = A @ e # B \<and> snd best < snd e \<and>
        (\<forall>x \<in> set A. snd x < snd e) \<and> (\<forall>x \<in> set B. snd x \<le> snd e)"
      then obtain A B where "kvs = A @ e # B" "snd best < snd e"
        "\<forall>x \<in> set A. snd x < snd e" "\<forall>x \<in> set B. snd x \<le> snd e" by blast
      then have "kv # kvs = (kv # A) @ e # B \<and> snd best < snd e \<and>
        (\<forall>x \<in> set (kv # A). snd x < snd e) \<and> (\<forall>x \<in> set B. snd x \<le> snd e)"
        using False by auto
      then show ?thesis by blast
    qed
  qed
qed

lemma max_by_count_first_max:
  "\<exists>A B. best # kvs = A @ max_by_count best kvs # B \<and>
     (\<forall>x \<in> set A. snd x < snd (max_by_count best kvs)) \<and>
     (\<forall>x \<in> set B. snd x \<le> snd (max_by_count best kvs))"
proof -
  from max_by_count_split [OF refl, of best kvs] show ?thesis
  proof
    assume a: "max_by_count best kvs = best \<and> (\<forall>x \<in> set kvs. snd x \<le> snd best)"
    then have "best # kvs = [] @ max_by_count best kvs # kvs \<and>
      (\<forall>x \<in> set []. snd x < snd (max_by_count best kvs)) \<and>
      (\<forall>x \<in> set kvs. snd x \<le> snd (max_by_count best kvs))" by simp
    then show ?thesis by blast
  next
    assume "\<exists>A B. kvs = A @ max_by_count best kvs # B \<and> snd best < snd (max_by_count best kvs) \<and>
      (\<forall>x \<in> set A. snd x < snd (max_by_count best kvs)) \<and>
      (\<forall>x \<in> set B. snd x \<le> snd (max_by_count best kvs))"
    then obtain A B where "kvs = A @ max_by_count best kvs # B"
      "snd best < snd (max_by_count best kvs)"
      "\<forall>x \<in> set A. snd x < snd (max_by_count best kvs)"
      "\<forall>x \<in> set B. snd x \<le> snd (max_by_count best kvs)" by blast
    then have "best # kvs = (best # A) @ max_by_count best kvs # B \<and>
      (\<forall>x \<in> set (best # A). snd x < snd (max_by_count best kvs)) \<and>
      (\<forall>x \<in> set B. snd x \<le> snd (max_by_count best kvs))" by auto
    then show ?thesis by blast
  qed
qed

lemma top_char_first_max:
  assumes "cs \<noteq> []"
  shows "\<exists>pre post. cs = pre @ top_char (fold vote cs []) # post \<and>
           top_char (fold vote cs []) \<notin> set pre \<and>
           (\<forall>c \<in> set pre. count_list cs c < count_list cs (top_char (fold vote cs []))) \<and>
           (\<forall>c. count_list cs c \<le> count_list cs (top_char (fold vote cs [])))"
proof -
  let ?T = "map (\<lambda>k. (k, count_list cs k)) (firsts cs)"
  from assms obtain k ks where ks: "firsts cs = k # ks" by (cases "firsts cs") auto
  let ?e = "max_by_count (k, count_list cs k) (map (\<lambda>k. (k, count_list cs k)) ks)"
  have top: "top_char (fold vote cs []) = fst ?e"
    by (simp add: fold_vote ks top_char_def)
  from max_by_count_first_max [of "(k, count_list cs k)" "map (\<lambda>k. (k, count_list cs k)) ks"]
  obtain A B where AB: "?T = A @ ?e # B"
    and A: "\<forall>x \<in> set A. snd x < snd ?e" and B: "\<forall>x \<in> set B. snd x \<le> snd ?e"
    using ks by auto
  have eT: "?e \<in> set ?T" using AB by (metis in_set_conv_decomp)
  then have sn: "snd ?e = count_list cs (fst ?e)" by auto
  have sub: "set A \<subseteq> set ?T" "set B \<subseteq> set ?T" using AB by (metis set_append Un_upper1, metis set_append set_subset_Cons Un_upper2 subset_trans)
  have Ac: "\<forall>x \<in> set A. snd x = count_list cs (fst x)" using sub by auto
  have Bc: "\<forall>x \<in> set B. snd x = count_list cs (fst x)" using sub by auto
  have keys: "firsts cs = map fst A @ fst ?e # map fst B"
  proof -
    have "map fst ?T = firsts cs" by (simp add: comp_def)
    then show ?thesis using AB by (metis map_append list.simps(9))
  qed
  from firsts_split [OF keys] obtain pre post where
    pp: "cs = pre @ fst ?e # post" "fst ?e \<notin> set pre" "set pre \<subseteq> set (map fst A)" by blast
  have lt: "\<forall>c \<in> set pre. count_list cs c < count_list cs (fst ?e)"
  proof
    fix c assume "c \<in> set pre"
    then obtain x where "x \<in> set A" "c = fst x" using pp(3) by auto
    then show "count_list cs c < count_list cs (fst ?e)" using A Ac sn by auto
  qed
  have le: "count_list cs c \<le> count_list cs (fst ?e)" for c
  proof (cases "c \<in> set cs")
    case False
    then show ?thesis by (simp add: count_list_0_iff)
  next
    case True
    then have "c \<in> set (firsts cs)" by simp
    then have "c \<in> fst ` set A \<or> c = fst ?e \<or> c \<in> fst ` set B" using keys by auto
    then show ?thesis using A B Ac Bc sn by (auto simp: less_imp_le)
  qed
  from pp lt le top show ?thesis by metis
qed

subsection \<open>The counters of a cell\<close>

lemma fold_tally:
  assumes step: "\<And>p t. stp p t =
     (if D p then t
      else \<lparr>votes = vote (C p) (votes t),
            border_vote = (if N p then border_vote t + 1 else border_vote t),
            inside = inside t + 1\<rparr>)"
  shows "fold stp ps t =
     \<lparr>votes = fold vote (map C (filter (\<lambda>p. \<not> D p) ps)) (votes t),
      border_vote = border_vote t + length (filter N (filter (\<lambda>p. \<not> D p) ps)),
      inside = inside t + length (filter (\<lambda>p. \<not> D p) ps)\<rparr>"
proof (induction ps arbitrary: t)
  case Nil
  then show ?case by simp
next
  case (Cons p ps)
  have "fold stp (p # ps) t = fold stp ps (stp p t)" by simp
  also have "\<dots> =
     \<lparr>votes = fold vote (map C (filter (\<lambda>p. \<not> D p) ps)) (votes (stp p t)),
      border_vote = border_vote (stp p t) + length (filter N (filter (\<lambda>p. \<not> D p) ps)),
      inside = inside (stp p t) + length (filter (\<lambda>p. \<not> D p) ps)\<rparr>"
    by (rule Cons.IH)
  also have "\<dots> =
     \<lparr>votes = fold vote (map C (filter (\<lambda>p. \<not> D p) (p # ps))) (votes t),
      border_vote = border_vote t + length (filter N (filter (\<lambda>p. \<not> D p) (p # ps))),
      inside = inside t + length (filter (\<lambda>p. \<not> D p) (p # ps))\<rparr>"
    by (simp add: step)
  finally show ?case .
qed

lemma fold_sample:
  "fold (\<lambda>(dy, dx). sample opt ws i j dy dx) ps t =
     \<lparr>votes = fold vote
        (map (\<lambda>(dy, dx). sample_char opt ws i j dy dx)
           (filter (\<lambda>p. \<not> (case p of (dy, dx) \<Rightarrow> discarded opt (sample_r opt i j dy dx))) ps)) (votes t),
      border_vote = border_vote t +
        length (filter (\<lambda>(dy, dx). near_border opt (sample_r opt i j dy dx))
           (filter (\<lambda>p. \<not> (case p of (dy, dx) \<Rightarrow> discarded opt (sample_r opt i j dy dx))) ps)),
      inside = inside t +
        length (filter (\<lambda>p. \<not> (case p of (dy, dx) \<Rightarrow> discarded opt (sample_r opt i j dy dx))) ps)\<rparr>"
  by (rule fold_tally) (simp add: sample_def Let_def split: prod.split)

lemma not_case_prod: "(\<lambda>p. \<not> (case p of (a, b) \<Rightarrow> P a b)) = (\<lambda>(a, b). \<not> P a b)"
  by (simp add: fun_eq_iff)

lemma fold_rows:
  "fold f (concat (map (\<lambda>a. map (\<lambda>b. (a, b)) bs) as)) t =
   fold (\<lambda>a t. fold (\<lambda>b. f (a, b)) bs t) as t"
  by (induction as arbitrary: t) (simp_all add: fold_map comp_def)

lemma cell_tally_scan_points:
  "cell_tally opt ws i j =
     fold (\<lambda>(dy, dx). sample opt ws i j dy dx) (scan_points opt)
       \<lparr>votes = [], border_vote = 0, inside = 0\<rparr>"
  by (simp add: cell_tally_def scan_points_def fold_rows)

lemma cell_tally_scan:
  "cell_tally opt ws i j =
     \<lparr>votes = fold vote (scan_chars opt ws i j) [],
      border_vote = scan_border opt i j,
      inside = length (scan_chars opt ws i j)\<rparr>"
  by (simp add: cell_tally_scan_points fold_sample scan_chars_def scan_border_def kept_def not_case_prod)

lemma cell_scan:
  "cell opt ws i j =
     (if scan_chars opt ws i j = [] then [32]
      else if border opt \<noteq> [] \<and> length (scan_chars opt ws i j) div 3 < scan_border opt i j
        then border opt
      else top_char (fold vote (scan_chars opt ws i j) []))"
  by (simp add: cell_def cell_char_def cell_tally_scan Let_def)

lemma third_exceeds: "(n div 3 < b) = (n < 3 * (b::nat))"
  by presburger

lemma glyphs_of_nonempty: "glyphs_of cs \<noteq> []"
  by (simp add: glyphs_of_def default_chars_def)

lemma valid_total: "valid_input labels counts \<Longrightarrow> 0 < real_of_int (sum_list counts)"
  by (simp add: valid_input_def)

lemma map_snd_zip_eq: "length xs = length ys \<Longrightarrow> map snd (zip xs ys) = ys"
  by (rule map_snd_zip) simp

lemma wedge_find_valid:
  assumes "valid_input labels counts" and "0 \<le> a"
  shows "\<exists>w \<in> set (wedges_of cs labels counts).
           wedge_find (wedges_of cs labels counts) a = Some w"
proof -
  from assms(1) have "zip labels counts \<noteq> []"
    by (cases labels; cases counts) (simp_all add: valid_input_def)
  then show ?thesis
    unfolding wedges_of_def using assms(2) by (rule wedge_find_build)
qed

lemma display_angle_nonneg: "0 \<le> orient s c (atan2 y x)"
proof -
  have "- (2 * pi) \<le> atan2 y x" using atan2_range [of y x] by simp
  then show ?thesis by (rule orient_nonneg)
qed

lemma hypot_zero [simp]: "hypot 0 0 = 0"
  by (simp add: hypot_def)

lemma opt1_fields:
  "radius opt1 = 1" "hole opt1 = 0" "samples opt1 = 1" "y_scale opt1 = 24 / 10"
  "border opt1 = [183]" "border_softness opt1 = 45 / 100" "start_at_12 opt1" "clockwise opt1"
  by (simp_all add: opt1_def default_options_def)

lemma inner_opt1: "inner opt1 = 0"
  by (simp add: inner_def opt1_fields)

lemma offsets_opt1: "offsets opt1 = [0]"
  by (simp add: offsets_def opt1_fields)

lemma scan_points_opt1: "scan_points opt1 = [(0, 0)]"
  by (simp add: scan_points_def offsets_opt1)

lemma kept_opt1: "kept opt1 0 0 = [(0, 0)]"
  by (simp add: kept_def scan_points_opt1 discarded_def sample_r_def inner_opt1 opt1_fields)

lemma single_wedge_char:
  assumes "valid_input [l] [v]"
  shows "wedge_char (wedges_of cs [l] [v]) (orient s c (atan2 y x)) = glyphs_of cs ! 0"
proof -
  from wedge_find_valid [OF assms display_angle_nonneg, of cs s c y x]
  obtain w where w: "w \<in> set (wedges_of cs [l] [v])"
    "wedge_char (wedges_of cs [l] [v]) (orient s c (atan2 y x)) = fill_char w"
    by (auto simp: wedge_char_def)
  have "fill_char w = glyphs_of cs ! 0"
    using w(1) glyphs_of_nonempty [of cs] by (auto simp: wedges_of_def Let_def)
  with w show ?thesis by simp
qed

subsection \<open>Distances\<close>

lemma hypot_nonneg: "0 \<le> hypot x y"
  by (simp add: hypot_def)

lemma less_hypot_iff: "c < hypot x y \<longleftrightarrow> c < 0 \<or> c\<^sup>2 < x\<^sup>2 + y\<^sup>2"
proof (cases "c < 0")
  case True
  then show ?thesis using hypot_nonneg [of x y] by simp
next
  case False
  then have "c = sqrt (c\<^sup>2)" by simp
  then have "c < hypot x y \<longleftrightarrow> sqrt (c\<^sup>2) < sqrt (x\<^sup>2 + y\<^sup>2)"
    by (simp add: hypot_def)
  then show ?thesis using False by (simp only: real_sqrt_less_iff) simp
qed

lemma hypot_less_iff: "hypot x y < c \<longleftrightarrow> 0 < c \<and> x\<^sup>2 + y\<^sup>2 < c\<^sup>2"
proof (cases "0 < c")
  case False
  then show ?thesis using hypot_nonneg [of x y] by simp
next
  case True
  then have "c = sqrt (c\<^sup>2)" by simp
  then have "hypot x y < c \<longleftrightarrow> sqrt (x\<^sup>2 + y\<^sup>2) < sqrt (c\<^sup>2)"
    by (simp add: hypot_def)
  then show ?thesis using True by (simp only: real_sqrt_less_iff) simp
qed

lemma discarded_hypot:
  "discarded opt (hypot x y) \<longleftrightarrow>
     (real_of_int (radius opt) + 1 / 1000000 < 0 \<or>
      (real_of_int (radius opt) + 1 / 1000000)\<^sup>2 < x\<^sup>2 + y\<^sup>2) \<or>
     (0 < inner opt - 1 / 1000000 \<and> x\<^sup>2 + y\<^sup>2 < (inner opt - 1 / 1000000)\<^sup>2)"
  unfolding discarded_def by (simp only: less_hypot_iff hypot_less_iff)

lemma near_border_hypot:
  "near_border opt (hypot x y) \<longleftrightarrow>
     border opt \<noteq> [] \<and>
     (((real_of_int (radius opt) - border_softness opt < 0 \<or>
        (real_of_int (radius opt) - border_softness opt)\<^sup>2 < x\<^sup>2 + y\<^sup>2) \<and>
       0 < real_of_int (radius opt) + border_softness opt \<and>
       x\<^sup>2 + y\<^sup>2 < (real_of_int (radius opt) + border_softness opt)\<^sup>2) \<or>
      (inner opt > 0 \<and>
       (inner opt - border_softness opt < 0 \<or>
        (inner opt - border_softness opt)\<^sup>2 < x\<^sup>2 + y\<^sup>2) \<and>
       0 < inner opt + border_softness opt \<and>
       x\<^sup>2 + y\<^sup>2 < (inner opt + border_softness opt)\<^sup>2))"
  unfolding near_border_def abs_diff_less_iff
  by (simp only: less_hypot_iff hypot_less_iff)

lemma opt8_fields:
  "radius opt8 = 2" "hole opt8 = 5000001 / 10000000" "samples opt8 = 1" "y_scale opt8 = 24 / 10"
  "border opt8 = [183]" "border_softness opt8 = 45 / 100" "start_at_12 opt8" "clockwise opt8"
  by (simp_all add: opt8_def default_options_def)

lemma inner_opt8: "inner opt8 = 5000001 / 5000000"
  by (simp add: inner_def opt8_fields)

lemma offsets_opt8: "offsets opt8 = [0]"
  by (simp add: offsets_def opt8_fields)

lemma scan_points_opt8: "scan_points opt8 = [(0, 0)]"
  by (simp add: scan_points_def offsets_opt8)

lemma sample_r_opt8_10: "sample_r opt8 1 0 0 0 = 1"
  by (simp add: sample_r_def hypot_def)

lemma kept_opt8_10: "kept opt8 1 0 = [(0, 0)]"
  by (simp add: kept_def scan_points_opt8 sample_r_opt8_10 discarded_def inner_opt8 opt8_fields)

lemma scan_border_opt8_10: "scan_border opt8 1 0 = 1"
  by (simp add: scan_border_def kept_opt8_10 sample_r_opt8_10 near_border_def inner_opt8 opt8_fields)

lemma cell_opt8_10: "cell opt8 ws 1 0 = [183]"
  by (simp add: cell_scan scan_chars_def kept_opt8_10 scan_border_opt8_10 opt8_fields)

lemma no_sample_blank:
  assumes "\<forall>(dy, dx) \<in> set (scan_points opt). discarded opt (sample_r opt i j dy dx)"
  shows "cell opt ws i j = [32]"
proof -
  have "kept opt i j = []"
    unfolding kept_def using assms by (auto simp: filter_empty_conv)
  then show ?thesis by (simp add: cell_scan scan_chars_def)
qed

subsection \<open>What a cell can show\<close>

lemma wedge_find_mem: "wedge_find ws a = Some w \<Longrightarrow> w \<in> set ws"
  by (induction ws) (auto simp: Let_def split: if_splits)

lemma wedge_char_cases: "wedge_char ws a = [32] \<or> wedge_char ws a \<in> fill_char ` set ws"
  by (auto simp: wedge_char_def split: option.splits dest: wedge_find_mem)

lemma scan_chars_subset: "set (scan_chars opt ws i j) \<subseteq> insert [32] (fill_char ` set ws)"
  using wedge_char_cases by (auto simp: scan_chars_def sample_char_def Let_def)

lemma top_char_mem: "cs \<noteq> [] \<Longrightarrow> top_char (fold vote cs []) \<in> set cs"
  using top_char_first_max [of cs] by (metis in_set_conv_decomp)

lemma cell_cases:
  "cell opt ws i j = [32] \<or> (border opt \<noteq> [] \<and> cell opt ws i j = border opt) \<or>
   cell opt ws i j \<in> set (scan_chars opt ws i j)"
  using top_char_mem [of "scan_chars opt ws i j"] by (auto simp: cell_scan)

lemma single_scan_chars:
  assumes "valid_input [l] [v]"
  shows "set (scan_chars opt (wedges_of cs [l] [v]) i j) \<subseteq> {glyphs_of cs ! 0}"
  by (auto simp: scan_chars_def sample_char_def Let_def single_wedge_char [OF assms])

lemma digits_small: "n < 10 \<Longrightarrow> digits n = [48 + n]"
  by (simp add: digits.simps [of n])

lemma digits_large: "10 \<le> n \<Longrightarrow> digits n = digits (n div 10) @ [48 + n mod 10]"
  by (simp add: digits.simps [of n])

lemma fmt_1f_100: "fmt_1f 100 = ustr ''100.0''"
  by (simp add: fmt_1f_def round_half_even_def Let_def ustr_def digits_small digits_large)

lemma single_legend:
  assumes "valid_input [l] [v]"
  shows "map legend_part (wedges_of cs [l] [v]) =
         [glyphs_of cs ! 0 @ [32] @ l @ [32] @ str_int v @ ustr '' (100.0%)'']"
proof -
  from assms have "0 < v" by (simp add: valid_input_def)
  then show ?thesis
    using glyphs_of_nonempty [of cs]
    by (simp add: wedges_of_def Let_def legend_part_def fmt_1f_100 ustr_def)
qed

lemma str_int_10: "str_int 10 = ustr ''10''"
  by (simp add: str_int_def ustr_def digits_small digits_large)

lemma opt5_fields:
  "radius opt5 = 4" "hole opt5 = 0" "samples opt5 = 4" "y_scale opt5 = 24 / 10"
  "border opt5 = [183]" "border_softness opt5 = 45 / 100" "start_at_12 opt5" "clockwise opt5"
  "chars opt5 = []" "show_legend opt5"
  by (simp_all add: opt5_def default_options_def)

lemma inner_opt5: "inner opt5 = 0"
  by (simp add: inner_def opt5_fields)

lemma upt4: "[0..<4] = [0, 1, 2, 3]"
  by (simp add: upt_rec)

lemma offsets_opt5: "offsets opt5 = [- (3 / 10), - (1 / 10), 1 / 10, 3 / 10]"
  by (simp add: offsets_def opt5_fields upt4)

lemma kept_opt5_40:
  "kept opt5 4 0 =
     [(- (3 / 10), - (3 / 10)), (- (3 / 10), - (1 / 10)),
      (- (1 / 10), - (3 / 10)), (- (1 / 10), - (1 / 10)),
      (1 / 10, - (3 / 10)), (1 / 10, - (1 / 10)),
      (3 / 10, - (3 / 10)), (3 / 10, - (1 / 10))]"
  by (simp add: kept_def scan_points_def offsets_opt5 sample_r_def discarded_hypot inner_opt5
      opt5_fields power2_eq_square)

lemma scan_border_opt5_40: "scan_border opt5 4 0 = 8"
  by (simp add: scan_border_def kept_opt5_40 sample_r_def near_border_hypot inner_opt5
      opt5_fields power2_eq_square)

lemma cell_opt5_40: "cell opt5 ws 4 0 = [183]"
  by (simp add: cell_scan scan_chars_def kept_opt5_40 scan_border_opt5_40 opt5_fields)

lemma kept_opt5_00: "length (kept opt5 0 0) = 16"
  by (simp add: kept_def scan_points_def offsets_opt5 sample_r_def discarded_hypot inner_opt5
      opt5_fields power2_eq_square)

lemma scan_border_opt5_00: "scan_border opt5 0 0 = 0"
  by (simp add: scan_border_def kept_def scan_points_def offsets_opt5 sample_r_def discarded_hypot near_border_hypot inner_opt5
      opt5_fields power2_eq_square)

subsection \<open>Label placement\<close>

lemma length_write_text [simp]: "length (write_text row col tx) = length row"
  by (induction tx arbitrary: row col) auto

lemma write_text_outside:
  "c < length row \<Longrightarrow> int c < col \<or> col + int (length tx) \<le> int c \<Longrightarrow>
   write_text row col tx ! c = row ! c"
proof (induction tx arbitrary: row col)
  case Nil
  then show ?case by simp
next
  case (Cons ch rest)
  let ?row = "if 0 \<le> col \<and> col < int (length row) then row[nat col := ch] else row"
  have len: "c < length ?row" using Cons.prems(1) by simp
  have far: "int c < col + 1 \<or> col + 1 + int (length rest) \<le> int c"
    using Cons.prems(2) by auto
  have ne: "int c \<noteq> col" using Cons.prems(2) by auto
  have "write_text ?row (col + 1) rest ! c = ?row ! c"
    using len far by (rule Cons.IH)
  moreover have "?row ! c = row ! c" using ne by auto
  ultimately show ?case by simp
qed

lemma length_place_row [simp]: "length (place_row row tx al) = length row"
  by (simp add: place_row_def Let_def split: option.split)

lemma first_nonblank_None_iff: "first_nonblank xs = None \<longleftrightarrow> (\<forall>x \<in> set xs. x = 32)"
  by (induction xs) auto

lemma first_nonblank_Some:
  "first_nonblank xs = Some f \<Longrightarrow> f < length xs \<and> xs ! f \<noteq> 32 \<and> (\<forall>k < f. xs ! k = 32)"
proof (induction xs arbitrary: f)
  case Nil
  then show ?case by simp
next
  case (Cons x xs)
  show ?case
  proof (cases "x \<noteq> 32")
    case True
    with Cons.prems show ?thesis by simp
  next
    case False
    with Cons.prems obtain g where g: "first_nonblank xs = Some g" "f = Suc g" by auto
    from Cons.IH [OF g(1)] g(2) False show ?thesis
      by (auto simp: nth_Cons split: nat.split)
  qed
qed

lemma first_nonblank_agree:
  "first_nonblank a = Some f \<Longrightarrow> length b = length a \<Longrightarrow> (\<forall>k \<le> f. b ! k = a ! k) \<Longrightarrow>
   first_nonblank b = Some f"
proof (induction a arbitrary: b f)
  case Nil
  then show ?case by simp
next
  case (Cons x xs)
  from Cons.prems(2) obtain y ys where b: "b = y # ys" "length ys = length xs"
    by (cases b) auto
  have y: "y = x" using Cons.prems(3) b by (auto dest: spec [of _ 0])
  show ?case
  proof (cases "x \<noteq> 32")
    case True
    with Cons.prems(1) y b show ?thesis by simp
  next
    case False
    with Cons.prems(1) obtain g where g: "first_nonblank xs = Some g" "f = Suc g" by auto
    have "\<forall>k \<le> g. ys ! k = xs ! k"
    proof (intro allI impI)
      fix k assume "k \<le> g"
      then have "Suc k \<le> f" using g by simp
      with Cons.prems(3) have "b ! Suc k = (x # xs) ! Suc k" by blast
      then show "ys ! k = xs ! k" using b by simp
    qed
    from Cons.IH [OF g(1) b(2) this] False y b g show ?thesis by simp
  qed
qed

text \<open>The columns that \<open>place_row\<close> may write lie strictly between the two ends of the span.\<close>

lemma place_row_outside:
  assumes f: "first_nonblank row = Some f" and c: "c < length row"
    and out: "c \<le> f \<or> last_nonblank row \<le> int c"
  shows "place_row row tx al ! c = row ! c"
proof (cases "last_nonblank row \<le> int f")
  case True
  then show ?thesis using f by (simp add: place_row_def Let_def)
next
  case False
  define L where "L = last_nonblank row"
  define avail where "avail = (L - 1) - (int f + 1) + 1"
  define text1 where "text1 = [32] @ tx @ [32]"
  define text2 where "text2 =
    (if int (length text1) > avail then take (nat (max 0 avail)) text1 else text1)"
  define start where "start =
    (case al of AlignLeft \<Rightarrow> int f + 1
     | AlignRight \<Rightarrow> (L - 1) - int (length text2) + 1
     | AlignOther \<Rightarrow> (int f + 1) + (avail - int (length text2)) div 2)"
  have av: "0 \<le> avail" using False by (simp add: avail_def L_def)
  have l2: "int (length text2) \<le> avail" using av by (auto simp: text2_def)
  have lo: "int f + 1 \<le> start"
    using l2 by (cases al) (auto simp: start_def avail_def)
  have hi: "start + int (length text2) \<le> L"
    using l2 by (cases al) (auto simp: start_def avail_def)
  have eq: "place_row row tx al = write_text row start text2"
    unfolding place_row_def Let_def L_def avail_def text1_def text2_def start_def
    using f False by (simp del: write_text.simps)
  have "int c < start \<or> start + int (length text2) \<le> int c"
    using out lo hi by (auto simp: L_def)
  with c show ?thesis unfolding eq by (rule write_text_outside)
qed

lemma place_row_blank: "first_nonblank row = None \<Longrightarrow> place_row row tx al = row"
  by (simp add: place_row_def)

lemma place_row_first: "first_nonblank (place_row row tx al) = first_nonblank row"
proof (cases "first_nonblank row")
  case None
  then show ?thesis by (simp add: place_row_blank)
next
  case (Some f)
  from first_nonblank_Some [OF Some] have fl: "f < length row" by simp
  have agree: "\<forall>k \<le> f. place_row row tx al ! k = row ! k"
  proof (intro allI impI)
    fix k assume k: "k \<le> f"
    then have kl: "k < length row" using fl by simp
    have out: "k \<le> f \<or> last_nonblank row \<le> int k" using k by simp
    from Some kl out show "place_row row tx al ! k = row ! k"
      by (rule place_row_outside)
  qed
  have "first_nonblank (place_row row tx al) = Some f"
    by (rule first_nonblank_agree [OF Some]) (simp_all add: agree)
  with Some show ?thesis by simp
qed

lemma place_row_last: "last_nonblank (place_row row tx al) = last_nonblank row"
proof (cases "first_nonblank row")
  case None
  then show ?thesis by (simp add: place_row_blank)
next
  case (Some f)
  then have "\<not> (\<forall>x \<in> set (rev row). x = 32)"
    using first_nonblank_None_iff [of row] by auto
  then obtain g where g: "first_nonblank (rev row) = Some g"
    using first_nonblank_None_iff [of "rev row"] by (cases "first_nonblank (rev row)") auto
  from first_nonblank_Some [OF g] have gl: "g < length row" by simp
  have L: "last_nonblank row = int (length row) - 1 - int g"
    by (simp add: last_nonblank_def g)
  have agree: "\<forall>k \<le> g. rev (place_row row tx al) ! k = rev row ! k"
  proof (intro allI impI)
    fix k assume k: "k \<le> g"
    then have kl: "k < length row" using gl by simp
    have cl: "length row - Suc k < length row" using kl by simp
    have out: "length row - Suc k \<le> f \<or> last_nonblank row \<le> int (length row - Suc k)"
      using kl k L by auto
    from Some cl out
    have "place_row row tx al ! (length row - Suc k) = row ! (length row - Suc k)"
      by (rule place_row_outside)
    then show "rev (place_row row tx al) ! k = rev row ! k"
      using kl by (simp add: rev_nth)
  qed
  have "first_nonblank (rev (place_row row tx al)) = Some g"
    by (rule first_nonblank_agree [OF g]) (simp_all add: agree)
  then show ?thesis by (simp add: last_nonblank_def g)
qed

lemma in_span_place_row: "in_span (place_row row tx al) c = in_span row c"
  unfolding in_span_def place_row_first place_row_last ..

lemma place_row_unchanged:
  assumes "c < length row" and "\<not> in_span row c"
  shows "place_row row tx al ! c = row ! c"
proof (cases "first_nonblank row")
  case None
  then show ?thesis by (simp add: place_row_blank)
next
  case (Some f)
  with assms(2) have "c \<le> f \<or> last_nonblank row \<le> int c"
    by (auto simp: in_span_def)
  with Some assms(1) show ?thesis by (rule place_row_outside)
qed

lemma map_length_update:
  "i < length xs \<Longrightarrow> length y = length (xs ! i) \<Longrightarrow> map length (xs[i := y]) = map length xs"
  by (induction xs arbitrary: i) (auto split: nat.split)

lemma place_all_total:
  "\<forall>p \<in> set ps. fst (snd p) < length lines \<Longrightarrow>
   \<exists>lines'. place_all opt lines ps = Inr lines' \<and> map length lines' = map length lines"
proof (induction ps arbitrary: lines)
  case Nil
  then show ?case by simp
next
  case (Cons p ps)
  obtain w row_idx al where p: "p = (w, row_idx, al)" by (cases p)
  let ?tx = "fmt opt (w_label w) (fraction w) (w_value w)"
  let ?l1 = "lines[row_idx := place_row (lines ! row_idx) ?tx al]"
  from Cons.prems p have r: "row_idx < length lines" by simp
  have m: "map length ?l1 = map length lines"
    using r by (simp add: map_length_update)
  have "\<forall>p \<in> set ps. fst (snd p) < length ?l1" using Cons.prems by simp
  from Cons.IH [OF this] obtain lines' where
    "place_all opt ?l1 ps = Inr lines'" "map length lines' = map length ?l1" by blast
  then show ?case using r p m by (simp add: place_def)
qed

lemma place_all_outside:
  "place_all opt lines ps = Inr lines' \<Longrightarrow> r < length lines \<Longrightarrow> c < length (lines ! r) \<Longrightarrow>
   \<not> in_span (lines ! r) c \<Longrightarrow> lines' ! r ! c = lines ! r ! c"
proof (induction ps arbitrary: lines)
  case Nil
  then show ?case by simp
next
  case (Cons p ps)
  obtain w row_idx al where p: "p = (w, row_idx, al)" by (cases p)
  let ?tx = "fmt opt (w_label w) (fraction w) (w_value w)"
  let ?l1 = "lines[row_idx := place_row (lines ! row_idx) ?tx al]"
  have ri: "row_idx < length lines"
    using Cons.prems(1) p by (auto simp: place_def split: if_splits)
  then have rest: "place_all opt ?l1 ps = Inr lines'"
    using Cons.prems(1) p by (simp add: place_def)
  have r1: "r < length ?l1" using Cons.prems(2) by simp
  have step: "c < length (?l1 ! r) \<and> \<not> in_span (?l1 ! r) c \<and> ?l1 ! r ! c = lines ! r ! c"
  proof (cases "r = row_idx")
    case True
    with Cons.prems(2) have "?l1 ! r = place_row (lines ! r) ?tx al" by simp
    then show ?thesis
      using Cons.prems(3,4) by (simp add: in_span_place_row place_row_unchanged)
  next
    case False
    then have "?l1 ! r = lines ! r" by simp
    then show ?thesis using Cons.prems(3,4) by simp
  qed
  then have c1: "c < length (?l1 ! r)" and s1: "\<not> in_span (?l1 ! r) c" by simp_all
  from step have "?l1 ! r ! c = lines ! r ! c" by simp
  moreover have "lines' ! r ! c = ?l1 ! r ! c"
    using rest r1 c1 s1 by (rule Cons.IH)
  ultimately show ?case by simp
qed

lemma clamp_row: "0 < h \<Longrightarrow> nat (max 0 (min (int h - 1) x)) < h"
  by auto

lemma target_in_range: "0 < h \<Longrightarrow> fst (target h k) < h"
  unfolding target_def Let_def fst_conv by (rule clamp_row)

lemma overlay_total:
  assumes "lines \<noteq> []"
  shows "\<exists>lines'. overlay opt ws lines = Inr lines' \<and> map length lines' = map length lines"
proof (cases "label_max opt \<noteq> 0 \<and> 0 < length ws")
  case False
  then show ?thesis by (auto simp: overlay_def)
next
  case True
  let ?ps = "zip (ordered opt ws) (map (target (length lines)) [0..<length (ordered opt ws)])"
  have "\<forall>p \<in> set ?ps. fst (snd p) < length lines"
  proof
    fix p assume "p \<in> set ?ps"
    moreover obtain w t where "p = (w, t)" by (cases p)
    ultimately have "t \<in> set (map (target (length lines)) [0..<length (ordered opt ws)])"
      by (auto dest: set_zip_rightD)
    then have "snd p \<in> set (map (target (length lines)) [0..<length (ordered opt ws)])"
      using \<open>p = (w, t)\<close> by simp
    then obtain k where "snd p = target (length lines) k" by auto
    then show "fst (snd p) < length lines"
      using assms by (simp add: target_in_range)
  qed
  from place_all_total [OF this, of opt] True show ?thesis
    by (simp add: overlay_def Let_def)
qed

lemma overlay_outside:
  assumes "overlay opt ws lines = Inr lines'" and "r < length lines"
    and "c < length (lines ! r)" and "\<not> in_span (lines ! r) c"
  shows "lines' ! r ! c = lines ! r ! c"
proof (cases "label_max opt \<noteq> 0 \<and> 0 < length ws")
  case False
  with assms(1) show ?thesis by (auto simp: overlay_def)
next
  case True
  with assms(1) have "place_all opt lines
      (zip (ordered opt ws) (map (target (length lines)) [0..<length (ordered opt ws)])) = Inr lines'"
    by (simp add: overlay_def Let_def)
  then show ?thesis using assms(2-4) by (rule place_all_outside)
qed

subsection \<open>Size of the grid\<close>

lemma fill_char_build:
  "gl \<noteq> [] \<Longrightarrow> w \<in> set (build_wedges gl tot i cum xs) \<Longrightarrow> fill_char w \<in> set gl"
  by (induction xs arbitrary: i cum) (auto simp: Let_def)

lemma glyph_lengths:
  assumes "\<forall>g \<in> set cs. length g = 1"
  shows "\<forall>w \<in> set (wedges_of cs labels counts). length (fill_char w) = 1"
proof
  fix w assume "w \<in> set (wedges_of cs labels counts)"
  then have "fill_char w \<in> set (glyphs_of cs)"
    unfolding wedges_of_def using glyphs_of_nonempty by (rule fill_char_build [rotated])
  then show "length (fill_char w) = 1"
    using assms by (auto simp: glyphs_of_def default_chars_def split: if_splits)
qed

lemma cell_length:
  assumes "\<forall>w \<in> set ws. length (fill_char w) = 1" and "length (border opt) \<le> 1"
  shows "length (cell opt ws i j) = 1"
proof -
  have b: "border opt \<noteq> [] \<Longrightarrow> length (border opt) = 1"
    using assms(2) by (cases "border opt") auto
  have "\<forall>c \<in> set (scan_chars opt ws i j). length c = 1"
    using scan_chars_subset [of opt ws i j] assms(1) by auto
  then show ?thesis using cell_cases [of opt ws i j] b by auto
qed

lemma length_raster: "length (raster opt ws) = nat (2 * radius opt + 1)"
  by (simp add: raster_def)

lemma length_concat_unit: "\<forall>x \<in> set xs. length (f x) = 1 \<Longrightarrow> length (concat (map f xs)) = length xs"
  by (induction xs) auto

lemma raster_row_length:
  assumes "\<forall>w \<in> set ws. length (fill_char w) = 1" and "length (border opt) \<le> 1"
    and "row \<in> set (raster opt ws)"
  shows "length row = nat (2 * radius opt + 1)"
proof -
  from assms(3) obtain j where
    "row = concat (map (\<lambda>i. cell opt ws i j) [- radius opt..radius opt])"
    by (auto simp: raster_def)
  moreover have "\<forall>i \<in> set [- radius opt..radius opt]. length (cell opt ws i j) = 1"
    using assms(1,2) by (simp add: cell_length)
  ultimately show ?thesis by (simp add: length_concat_unit)
qed

lemma default_fields:
  "label_max default_options = 4" "label_mode default_options = ustr ''percent''"
  by (simp_all add: default_options_def)

lemma ordered_single: "ordered default_options [w] = [w]"
  by (simp add: ordered_def take_py_def default_fields)

lemma overlay_example:
  "overlay default_options (wedges_of [] [ustr ''A''] [10]) [[32, 35, 35, 35, 35, 35, 32]] =
     Inr [[32, 35, 32, 65, 32, 35, 32]]"
  by (simp add: overlay_def wedges_of_def Let_def ordered_single default_fields target_def
      place_def fmt_def fmt_1f_100 place_row_def last_nonblank_def ustr_def)

subsection \<open>Assembly of the output\<close>

lemma wedges_of_nth:
  assumes "valid_input labels counts" and k: "k < length labels"
  shows "wedges_of cs labels counts ! k =
      \<lparr>w_label = labels ! k,
       angle_start = 2 * pi * (real_of_int (sum_list (take k counts)) / real_of_int (sum_list counts)),
       angle_end = 2 * pi * (real_of_int (sum_list (take (Suc k) counts)) / real_of_int (sum_list counts)),
       fill_char = glyphs_of cs ! (k mod length (glyphs_of cs)),
       fraction = real_of_int (counts ! k) / real_of_int (sum_list counts),
       w_value = counts ! k\<rparr>"
proof -
  let ?xs = "zip labels counts"
  from assms(1) have len: "length labels = length counts"
    and tot0: "real_of_int (sum_list counts) \<noteq> 0" by (simp_all add: valid_input_def)
  have sx: "map snd ?xs = counts" using len by (rule map_snd_zip_eq)
  have tk: "map snd (take m ?xs) = take m counts" for m
    by (metis take_map sx)
  have kx: "k < length ?xs" using k len by simp
  have e: "?xs ! k = (labels ! k, counts ! k)" using k len by simp
  show ?thesis
    unfolding wedges_of_def build_wedges_nth [OF kx tot0] tk e by simp
qed

lemma legend_parts:
  assumes "valid_input labels counts"
  shows "map legend_part (wedges_of cs labels counts) =
     map (\<lambda>k. glyphs_of cs ! (k mod length (glyphs_of cs)) @ [32] @ labels ! k @ [32] @
               str_int (counts ! k) @ ustr '' ('' @
               fmt_1f (real_of_int (counts ! k) / real_of_int (sum_list counts) * 100) @ ustr ''%)'')
       [0..<length labels]"
proof (rule nth_equalityI)
  from assms have len: "length labels = length counts" by (simp add: valid_input_def)
  show "length (map legend_part (wedges_of cs labels counts)) =
      length (map (\<lambda>k. glyphs_of cs ! (k mod length (glyphs_of cs)) @ [32] @ labels ! k @ [32] @
               str_int (counts ! k) @ ustr '' ('' @
               fmt_1f (real_of_int (counts ! k) / real_of_int (sum_list counts) * 100) @ ustr ''%)'')
       [0..<length labels])"
    using len by (simp add: wedges_of_def)
  fix k assume "k < length (map legend_part (wedges_of cs labels counts))"
  then have k: "k < length labels" using len by (simp add: wedges_of_def)
  then have kw: "k < length (wedges_of cs labels counts)" using len by (simp add: wedges_of_def)
  show "map legend_part (wedges_of cs labels counts) ! k =
      map (\<lambda>k. glyphs_of cs ! (k mod length (glyphs_of cs)) @ [32] @ labels ! k @ [32] @
               str_int (counts ! k) @ ustr '' ('' @
               fmt_1f (real_of_int (counts ! k) / real_of_int (sum_list counts) * 100) @ ustr ''%)'')
       [0..<length labels] ! k"
    using k kw by (simp add: legend_part_def wedges_of_nth [OF assms k])
qed

lemma upto_as_map: "[- r..r] = map (\<lambda>k. int k - r) [0..<nat (2 * r + 1)]"
  by (rule nth_equalityI) auto

lemma raster_rows:
  "raster opt ws =
     map (\<lambda>k. concat (map (\<lambda>i. cell opt ws i (int k - radius opt)) [- radius opt..radius opt]))
       [0..<nat (2 * radius opt + 1)]"
  unfolding raster_def by (subst (2) upto_as_map) (simp add: comp_def)

lemma pie_valid:
  assumes "valid_input labels counts" and "samples opt \<noteq> - 1" and "y_scale opt \<noteq> 0"
    and "0 \<le> radius opt"
  shows "\<exists>rows. overlay opt (wedges_of (chars opt) labels counts)
                  (raster opt (wedges_of (chars opt) labels counts)) = Inr rows \<and>
           length rows = nat (2 * radius opt + 1) \<and>
           pie labels counts opt =
             Inr (join [10] (title_lines opt @ rows @
                    legend_lines opt (wedges_of (chars opt) labels counts)))"
proof -
  let ?ws = "wedges_of (chars opt) labels counts"
  have "raster opt ?ws \<noteq> []"
    using assms(4) length_raster [of opt ?ws] by auto
  from overlay_total [OF this, of opt ?ws] obtain rows where
    o: "overlay opt ?ws (raster opt ?ws) = Inr rows"
    and m: "map length rows = map length (raster opt ?ws)" by blast
  from m have l: "length rows = nat (2 * radius opt + 1)"
    using length_raster [of opt ?ws] by (metis length_map)
  have "pie labels counts opt = Inr (join [10] (title_lines opt @ rows @ legend_lines opt ?ws))"
    using assms(1-3) o by (simp add: pie_def valid_input_def Let_def)
  with o l show ?thesis by blast
qed

lemma join_newline: "2 \<le> length xs \<Longrightarrow> 10 \<in> set (join [10] xs)"
proof (cases xs)
  case Nil
  then show "2 \<le> length xs \<Longrightarrow> ?thesis" by simp
next
  case (Cons x ys)
  then show "2 \<le> length xs \<Longrightarrow> ?thesis" by (cases ys) auto
qed

lemma messages_one_line: "10 \<notin> set invalid_input_msg" "10 \<notin> set no_data_msg"
  by (simp_all add: invalid_input_msg_def no_data_msg_def ustr_def)

lemma messages_differ: "invalid_input_msg \<noteq> no_data_msg"
  by (simp add: invalid_input_msg_def no_data_msg_def ustr_def)

lemma pie_invalid:
  "labels = [] \<or> counts = [] \<or> length labels \<noteq> length counts \<Longrightarrow>
   pie labels counts opt = Inr invalid_input_msg"
  by (simp add: pie_def)

lemma pie_no_data:
  "\<not> (labels = [] \<or> counts = [] \<or> length labels \<noteq> length counts) \<Longrightarrow> sum_list counts \<le> 0 \<Longrightarrow>
   pie labels counts opt = Inr no_data_msg"
  by (simp add: pie_def)

lemma pie_chart:
  assumes "valid_input labels counts" and "samples opt \<noteq> - 1" and "y_scale opt \<noteq> 0"
    and "0 < radius opt"
  shows "\<exists>s. pie labels counts opt = Inr s \<and> 10 \<in> set s"
proof -
  from assms(4) have r: "0 \<le> radius opt" by simp
  from pie_valid [OF assms(1-3) r] obtain rows where
    l: "length rows = nat (2 * radius opt + 1)" and
    p: "pie labels counts opt =
      Inr (join [10] (title_lines opt @ rows @
             legend_lines opt (wedges_of (chars opt) labels counts)))" by blast
  have "2 \<le> length (title_lines opt @ rows @
             legend_lines opt (wedges_of (chars opt) labels counts))"
    using l assms(4) by simp
  then have "10 \<in> set (join [10] (title_lines opt @ rows @
             legend_lines opt (wedges_of (chars opt) labels counts)))"
    by (rule join_newline)
  with p show ?thesis by blast
qed

subsection \<open>A complete example\<close>

lemma votes_nonempty:
  "inside (cell_tally opt ws i j) \<noteq> 0 \<Longrightarrow> votes (cell_tally opt ws i j) \<noteq> []"
  by (simp add: cell_tally_scan fold_vote)

lemma offsets_ascending: "sorted_wrt (<) (offsets opt)"
proof (cases "0 < samples opt")
  case False
  then show ?thesis by (simp add: offsets_def)
next
  case True
  then have step: "0 < 1 / real_of_int (samples opt + 1)" by simp
  have "sorted_wrt (\<lambda>a b. (real a + 1) * (1 / real_of_int (samples opt + 1)) - 1 / 2 <
                          (real b + 1) * (1 / real_of_int (samples opt + 1)) - 1 / 2)
          [0..<nat (samples opt)]"
  proof (rule sorted_wrt_mono_rel [OF _ sorted_wrt_upt])
    fix a b :: nat
    assume "a < b"
    then have "real a + 1 < real b + 1" by simp
    then show "(real a + 1) * (1 / real_of_int (samples opt + 1)) - 1 / 2 <
               (real b + 1) * (1 / real_of_int (samples opt + 1)) - 1 / 2"
      using step by (simp only: mult_strict_right_mono diff_strict_right_mono)
  qed
  then show ?thesis by (simp add: offsets_def Let_def sorted_wrt_map)
qed

lemma kept_opt1_cell:
  "kept opt1 i j =
     (if discarded opt1 (hypot (real_of_int i) (real_of_int j / (24 / 10))) then [] else [(0, 0)])"
  by (simp add: kept_def scan_points_opt1 sample_r_def opt1_fields)

lemma upto_m1_1: "[- 1..1 :: int] = [- 1, 0, 1]"
  by (simp add: upto.simps)

lemma single_A: "valid_input [ustr ''A''] [10]"
  by (simp add: valid_input_def)

lemma cell_opt1:
  "cell opt1 (wedges_of [] [ustr ''A''] [10]) i j =
     (if discarded opt1 (hypot (real_of_int i) (real_of_int j / (24 / 10))) then [32]
      else if near_border opt1 (hypot (real_of_int i) (real_of_int j / (24 / 10))) then [183]
      else [9608])"
  by (simp add: cell_scan scan_chars_def scan_border_def kept_opt1_cell sample_r_def sample_char_def
      single_wedge_char [OF single_A] glyphs_of_def default_chars_def top_char_def opt1_fields)

lemma raster_opt1:
  "raster opt1 (wedges_of [] [ustr ''A''] [10]) =
     [[32, 9608, 32], [183, 9608, 183], [32, 9608, 32]]"
  by (simp add: raster_def upto_m1_1 cell_opt1 discarded_hypot near_border_hypot inner_opt1
      opt1_fields power2_eq_square del: hypot_zero)

lemma overlay_opt1:
  "overlay opt1 (wedges_of [] [ustr ''A''] [10]) [[32, 9608, 32], [183, 9608, 183], [32, 9608, 32]] =
     Inr [[32, 9608, 32], [183, 9608, 183], [32, 9608, 32]]"
  by (simp add: overlay_def wedges_of_def Let_def ordered_def take_py_def target_def
      place_def place_row_def last_nonblank_def opt1_def default_options_def)

lemma pie_example:
  "pie [ustr ''A''] [10] opt1 =
     Inr ([32, 9608, 32, 10, 183, 9608, 183, 10, 32, 9608, 32, 10, 9608] @ ustr '' A 10 (100.0%)'')"
proof -
  have c: "chars opt1 = []" "title opt1 = []" "show_legend opt1"
    by (simp_all add: opt1_def default_options_def)
  have l: "legend_lines opt1 (wedges_of [] [ustr ''A''] [10]) = [9608 # ustr '' A 10 (100.0%)'']"
    using single_legend [OF single_A, of "[]"]
    by (simp add: legend_lines_def c glyphs_of_def default_chars_def str_int_10 ustr_def)
  have "pie [ustr ''A''] [10] opt1 =
      Inr (join [10] (title_lines opt1 @ [[32, 9608, 32], [183, 9608, 183], [32, 9608, 32]] @
             legend_lines opt1 (wedges_of [] [ustr ''A''] [10])))"
    by (simp add: pie_def Let_def c raster_opt1 overlay_opt1 opt1_fields)
  then show ?thesis
    by (simp add: l title_lines_def c)
qed

lemma single_cell:
  assumes "valid_input [l] [v]"
  shows "cell opt (wedges_of cs [l] [v]) i j =
     (if kept opt i j = [] then [32]
      else if border opt \<noteq> [] \<and> length (kept opt i j) div 3 < scan_border opt i j then border opt
      else glyphs_of cs ! 0)"
proof -
  let ?cs = "scan_chars opt (wedges_of cs [l] [v]) i j"
  have e: "?cs = [] \<longleftrightarrow> kept opt i j = []" by (simp add: scan_chars_def)
  have n: "length ?cs = length (kept opt i j)" by (simp add: scan_chars_def)
  have "top_char (fold vote ?cs []) = glyphs_of cs ! 0" if "?cs \<noteq> []"
    using top_char_mem [OF that] single_scan_chars [OF assms, of opt cs i j] by auto
  then show ?thesis by (simp add: cell_scan e n)
qed

lemma scan_points_opt5:
  "scan_points opt5 =
     [(- (3 / 10), - (3 / 10)), (- (3 / 10), - (1 / 10)), (- (3 / 10), 1 / 10), (- (3 / 10), 3 / 10),
      (- (1 / 10), - (3 / 10)), (- (1 / 10), - (1 / 10)), (- (1 / 10), 1 / 10), (- (1 / 10), 3 / 10),
      (1 / 10, - (3 / 10)), (1 / 10, - (1 / 10)), (1 / 10, 1 / 10), (1 / 10, 3 / 10),
      (3 / 10, - (3 / 10)), (3 / 10, - (1 / 10)), (3 / 10, 1 / 10), (3 / 10, 3 / 10)]"
  by (simp add: scan_points_def offsets_opt5)

lemma row_counts_opt5:
  "length (kept opt5 (- 4) (- 1)) = 8 \<and> scan_border opt5 (- 4) (- 1) = 8"
  "length (kept opt5 (- 3) (- 1)) = 16 \<and> scan_border opt5 (- 3) (- 1) = 0"
  "length (kept opt5 (- 2) (- 1)) = 16 \<and> scan_border opt5 (- 2) (- 1) = 0"
  "length (kept opt5 (- 1) (- 1)) = 16 \<and> scan_border opt5 (- 1) (- 1) = 0"
  "length (kept opt5 0 (- 1)) = 16 \<and> scan_border opt5 0 (- 1) = 0"
  "length (kept opt5 1 (- 1)) = 16 \<and> scan_border opt5 1 (- 1) = 0"
  "length (kept opt5 2 (- 1)) = 16 \<and> scan_border opt5 2 (- 1) = 0"
  "length (kept opt5 3 (- 1)) = 16 \<and> scan_border opt5 3 (- 1) = 0"
  "length (kept opt5 4 (- 1)) = 8 \<and> scan_border opt5 4 (- 1) = 8"
  by (simp_all add: scan_border_def kept_def scan_points_opt5 sample_r_def discarded_hypot
      near_border_hypot inner_opt5 opt5_fields power2_eq_square)

lemma upto_m4_4: "[- 4..4 :: int] = [- 4, - 3, - 2, - 1, 0, 1, 2, 3, 4]"
  by (simp add: upto.simps)

lemma kept_nonempty: "length (kept opt i j) = n \<Longrightarrow> 0 < n \<Longrightarrow> kept opt i j \<noteq> []"
  by auto

lemma row3_opt5:
  "raster opt5 (wedges_of [] [ustr ''A''] [10]) ! 3 =
     [183, 9608, 9608, 9608, 9608, 9608, 9608, 9608, 183]"
proof -
  have g: "glyphs_of [] ! 0 = [9608]" by (simp add: glyphs_of_def default_chars_def)
  have c: "cell opt5 (wedges_of [] [ustr ''A''] [10]) i (- 1) =
      (if kept opt5 i (- 1) = [] then [32]
       else if length (kept opt5 i (- 1)) div 3 < scan_border opt5 i (- 1) then [183]
       else [9608])" for i
    by (simp add: single_cell [OF single_A] g opt5_fields)
  have k: "kept opt5 (- 4) (- 1) \<noteq> []" "kept opt5 (- 3) (- 1) \<noteq> []"
    "kept opt5 (- 2) (- 1) \<noteq> []" "kept opt5 (- 1) (- 1) \<noteq> []" "kept opt5 0 (- 1) \<noteq> []"
    "kept opt5 1 (- 1) \<noteq> []" "kept opt5 2 (- 1) \<noteq> []" "kept opt5 3 (- 1) \<noteq> []"
    "kept opt5 4 (- 1) \<noteq> []"
    using row_counts_opt5 by (auto intro: kept_nonempty)
  have "raster opt5 (wedges_of [] [ustr ''A''] [10]) ! 3 =
      concat (map (\<lambda>i. cell opt5 (wedges_of [] [ustr ''A''] [10]) i (- 1)) [- 4..4])"
    by (simp add: raster_rows opt5_fields)
  then have "raster opt5 (wedges_of [] [ustr ''A''] [10]) ! 3 =
      concat (map (\<lambda>i. cell opt5 (wedges_of [] [ustr ''A''] [10]) i (- 1))
        [- 4, - 3, - 2, - 1, 0, 1, 2, 3, 4])"
    by (simp only: upto_m4_4)
  then show ?thesis
    by (simp add: c k row_counts_opt5)
qed

lemma overlay_opt5:
  "\<exists>lines'. overlay opt5 (wedges_of [] [ustr ''A''] [10])
               (raster opt5 (wedges_of [] [ustr ''A''] [10])) = Inr lines' \<and>
            lines' ! 3 = [183, 32, 65, 32, 49, 48, 48, 46, 183]"
proof -
  let ?ws = "wedges_of [] [ustr ''A''] [10]"
  let ?lines = "raster opt5 ?ws"
  have n: "length ?lines = 9" by (simp add: length_raster opt5_fields)
  have f: "label_max opt5 = 4" "label_mode opt5 = ustr ''percent''"
    by (simp_all add: opt5_def default_options_def)
  have w: "?ws = [\<lparr>w_label = ustr ''A'', angle_start = 0, angle_end = 2 * pi,
      fill_char = [9608], fraction = 1, w_value = 10\<rparr>]"
    by (simp add: wedges_of_def Let_def glyphs_of_def default_chars_def)
  have t: "target 9 0 = (3, AlignLeft)" by (simp add: target_def)
  have "overlay opt5 ?ws ?lines =
      Inr (?lines[3 := place_row (?lines ! 3) (ustr ''A'' @ [32] @ fmt_1f 100 @ ustr ''%'') AlignLeft])"
    unfolding w
    by (simp add: overlay_def Let_def ordered_def take_py_def f length_raster opt5_fields t
        place_def fmt_def)
  moreover have "place_row (?lines ! 3) (ustr ''A'' @ [32] @ fmt_1f 100 @ ustr ''%'') AlignLeft =
      [183, 32, 65, 32, 49, 48, 48, 46, 183]"
    unfolding row3_opt5
    by (simp add: place_row_def last_nonblank_def fmt_1f_100 ustr_def Let_def)
  ultimately show ?thesis using n by simp
qed

section \<open>The claims\<close>







text \<open>
  Claim C2.  The offsets ascend and the scan runs over the vertical offsets in the outer
  loop and the horizontal ones in the inner loop.  With \<open>scan_chars\<close> the glyphs voted
  for by the samples counted inside, in scan order, and \<open>scan_border\<close> the number of
  border votes: a cell with no inside sample
  is blank; otherwise, if a border glyph is configured and the border votes exceed one
  third of the inside samples, the cell is the border glyph; otherwise it is a glyph with
  the most votes, and every glyph met in the scan before its first vote has strictly
  fewer votes (ties go to the glyph met first).
\<close>

theorem cell_resolution:
  "sorted_wrt (<) (offsets opt) \<and>
   scan_points opt = concat (map (\<lambda>dy. map (\<lambda>dx. (dy, dx)) (offsets opt)) (offsets opt)) \<and>
   (scan_chars opt ws i j = [] \<longrightarrow> cell opt ws i j = [32]) \<and>
   (scan_chars opt ws i j \<noteq> [] \<and> border opt \<noteq> [] \<and>
      length (scan_chars opt ws i j) < 3 * scan_border opt i j \<longrightarrow>
        cell opt ws i j = border opt) \<and>
   (scan_chars opt ws i j \<noteq> [] \<and>
      \<not> (border opt \<noteq> [] \<and> length (scan_chars opt ws i j) < 3 * scan_border opt i j) \<longrightarrow>
        (\<exists>pre post.
           scan_chars opt ws i j = pre @ cell opt ws i j # post \<and>
           cell opt ws i j \<notin> set pre \<and>
           (\<forall>c \<in> set pre.
              count_list (scan_chars opt ws i j) c <
              count_list (scan_chars opt ws i j) (cell opt ws i j)) \<and>
           (\<forall>c. count_list (scan_chars opt ws i j) c \<le>
                count_list (scan_chars opt ws i j) (cell opt ws i j))))"
proof (intro conjI impI)
  show "sorted_wrt (<) (offsets opt)" by (rule offsets_ascending)
next
  show "scan_points opt = concat (map (\<lambda>dy. map (\<lambda>dx. (dy, dx)) (offsets opt)) (offsets opt))"
    by (rule scan_points_def)
next
  assume "scan_chars opt ws i j = []"
  then show "cell opt ws i j = [32]" by (simp add: cell_scan)
next
  assume "scan_chars opt ws i j \<noteq> [] \<and> border opt \<noteq> [] \<and>
      length (scan_chars opt ws i j) < 3 * scan_border opt i j"
  then show "cell opt ws i j = border opt" by (simp add: cell_scan third_exceeds)
next
  assume a: "scan_chars opt ws i j \<noteq> [] \<and>
      \<not> (border opt \<noteq> [] \<and> length (scan_chars opt ws i j) < 3 * scan_border opt i j)"
  then have c: "cell opt ws i j = top_char (fold vote (scan_chars opt ws i j) [])"
    by (auto simp: cell_scan third_exceeds)
  from a have "scan_chars opt ws i j \<noteq> []" by simp
  from top_char_first_max [OF this] show "\<exists>pre post.
           scan_chars opt ws i j = pre @ cell opt ws i j # post \<and>
           cell opt ws i j \<notin> set pre \<and>
           (\<forall>c \<in> set pre.
              count_list (scan_chars opt ws i j) c <
              count_list (scan_chars opt ws i j) (cell opt ws i j)) \<and>
           (\<forall>c. count_list (scan_chars opt ws i j) c \<le>
                count_list (scan_chars opt ws i j) (cell opt ws i j))"
    unfolding c .
qed

lemma scan_chars_opt1: "scan_chars opt1 (wedges_of [] [[65]] [10]) 0 0 = [[9608]]"
proof -
  have v: "valid_input [[65]] [10]" by (simp add: valid_input_def)
  show ?thesis
    by (simp add: scan_chars_def kept_opt1 sample_char_def Let_def single_wedge_char [OF v]
        glyphs_of_def default_chars_def)
qed

lemma scan_border_opt1: "scan_border opt1 0 0 = 0"
  by (simp add: scan_border_def kept_opt1 near_border_def sample_r_def inner_opt1 opt1_fields)

theorem cell_resolution_witness:
  "scan_chars (default_options\<lparr>radius := 1, samples := 1\<rparr>) (wedges_of [] [[65]] [10]) 0 0 = [[9608]] \<and>
   scan_border (default_options\<lparr>radius := 1, samples := 1\<rparr>) 0 0 = 0 \<and>
   cell (default_options\<lparr>radius := 1, samples := 1\<rparr>) (wedges_of [] [[65]] [10]) 0 0 = [9608]"
proof -
  let ?ws = "wedges_of [] [[65]] [10]"
  have a: "scan_chars opt1 ?ws 0 0 \<noteq> [] \<and>
      \<not> (border opt1 \<noteq> [] \<and> length (scan_chars opt1 ?ws 0 0) < 3 * scan_border opt1 0 0)"
    by (simp add: scan_chars_opt1 scan_border_opt1)
  from cell_resolution [of opt1 ?ws 0 0] a
  obtain pre post where "scan_chars opt1 ?ws 0 0 = pre @ cell opt1 ?ws 0 0 # post" by blast
  then have "cell opt1 ?ws 0 0 = [9608]"
    by (simp add: scan_chars_opt1 Cons_eq_append_conv)
  then show ?thesis
    using scan_chars_opt1 scan_border_opt1 by (simp add: opt1_def)
qed

text \<open>
  A sample is skipped only when \<open>r < inner - 10\<^sup>-\<^sup>6\<close>.  With radius 2, hole
  \<open>0.5000001\<close> and one sample per cell, the only sample of cell \<open>(1, 0)\<close> has
  \<open>r = 1 < inner = 1.0000002\<close>, yet it is counted inside and the cell shows the border glyph.
\<close>

theorem hole_counterexample:
  "0 < hole opt8 \<and> scan_points opt8 = [(0, 0)] \<and>
   sample_r opt8 1 0 0 0 < inner opt8 \<and>
   cell opt8 (wedges_of [] [[65]] [10]) 1 0 = [183]"
  by (simp add: opt8_fields scan_points_opt8 sample_r_opt8_10 inner_opt8 cell_opt8_10)

text \<open>
  Claim C8, as amended.  If \<open>hole > 0\<close>, a cell all of whose sample points satisfy
  \<open>r < inner - 10\<^sup>-\<^sup>6\<close> is blank.
\<close>

theorem hole_cells_blank:
  assumes "0 < hole opt"
    and "\<forall>(dy, dx) \<in> set (scan_points opt). sample_r opt i j dy dx < inner opt - 1 / 1000000"
  shows "cell opt ws i j = [32]"
proof (rule no_sample_blank)
  show "\<forall>(dy, dx) \<in> set (scan_points opt). discarded opt (sample_r opt i j dy dx)"
    using assms(2) by (auto simp: discarded_def)
qed

theorem hole_cells_blank_witness:
  "0 < hole opt8 \<and> scan_points opt8 = [(0, 0)] \<and>
   sample_r opt8 0 0 0 0 < inner opt8 - 1 / 1000000 \<and>
   cell opt8 (wedges_of [] [[65]] [10]) 0 0 = [32]"
proof -
  have h: "0 < hole opt8" by (simp add: opt8_fields)
  have r: "sample_r opt8 0 0 0 0 < inner opt8 - 1 / 1000000"
    by (simp add: sample_r_def inner_opt8)
  then have a: "\<forall>(dy, dx) \<in> set (scan_points opt8).
      sample_r opt8 0 0 dy dx < inner opt8 - 1 / 1000000"
    by (simp add: scan_points_opt8)
  from hole_cells_blank [OF h a] h r show ?thesis
    by (simp add: scan_points_opt8)
qed

text \<open>
  With the default options the border glyph takes precedence on the rim of the disk and
  labels are written over the interior: in the scenario \<open>labels = ["A"]\<close>,
  \<open>counts = [10]\<close>, radius 4, the cell \<open>(4, 0)\<close> has eight inside samples, all
  within the border band, and shows the border glyph, which is neither a blank nor the
  glyph of the wedge; and the row of \<open>j = -1\<close>, rasterized as the border glyph, seven
  times the glyph of the wedge and the border glyph, carries the label text
  \<open>" A 100."\<close> between its two ends in the output.
\<close>

theorem single_wedge_counterexample:
  "valid_input [ustr ''A''] [10] \<and>
   cell opt5 (wedges_of (chars opt5) [ustr ''A''] [10]) 4 0 = [183] \<and>
   glyphs_of (chars opt5) ! 0 = [9608] \<and>
   (\<exists>lines'. overlay opt5 (wedges_of (chars opt5) [ustr ''A''] [10])
                 (raster opt5 (wedges_of (chars opt5) [ustr ''A''] [10])) = Inr lines' \<and>
              lines' ! 3 = [183, 32, 65, 32, 49, 48, 48, 46, 183])"
  using overlay_opt5
  by (simp add: valid_input_def cell_opt5_40 opt5_fields glyphs_of_def default_chars_def)

text \<open>
  Claim C5, as amended.  For a single wedge, every cell of the rasterized grid is a blank,
  the border glyph or the glyph of the wedge, and it is the glyph of the wedge whenever
  the cell has an inside sample and the border glyph does not win; the legend line is
  \<open>"{glyph} {label} {value} (100.0%)"\<close>.
\<close>

theorem single_wedge_fill:
  assumes "valid_input [l] [v]"
  shows "(cell opt (wedges_of (chars opt) [l] [v]) i j = [32] \<or>
          cell opt (wedges_of (chars opt) [l] [v]) i j = border opt \<or>
          cell opt (wedges_of (chars opt) [l] [v]) i j = glyphs_of (chars opt) ! 0) \<and>
         (scan_chars opt (wedges_of (chars opt) [l] [v]) i j \<noteq> [] \<and>
          \<not> (border opt \<noteq> [] \<and>
             length (scan_chars opt (wedges_of (chars opt) [l] [v]) i j) < 3 * scan_border opt i j)
          \<longrightarrow> cell opt (wedges_of (chars opt) [l] [v]) i j = glyphs_of (chars opt) ! 0) \<and>
         (show_legend opt \<longrightarrow>
          legend_lines opt (wedges_of (chars opt) [l] [v]) =
            [glyphs_of (chars opt) ! 0 @ [32] @ l @ [32] @ str_int v @ ustr '' (100.0%)''])"
proof -
  let ?ws = "wedges_of (chars opt) [l] [v]"
  note sub = single_scan_chars [OF assms, of opt "chars opt" i j]
  have 1: "cell opt ?ws i j = [32] \<or> cell opt ?ws i j = border opt \<or>
      cell opt ?ws i j = glyphs_of (chars opt) ! 0"
    using cell_cases [of opt ?ws i j] sub by auto
  have 2: "cell opt ?ws i j = glyphs_of (chars opt) ! 0"
    if "scan_chars opt ?ws i j \<noteq> [] \<and>
        \<not> (border opt \<noteq> [] \<and> length (scan_chars opt ?ws i j) < 3 * scan_border opt i j)"
  proof -
    from that have "cell opt ?ws i j = top_char (fold vote (scan_chars opt ?ws i j) [])"
      by (auto simp: cell_scan third_exceeds)
    moreover have "top_char (fold vote (scan_chars opt ?ws i j) []) \<in> set (scan_chars opt ?ws i j)"
      using that by (intro top_char_mem) simp
    ultimately show ?thesis using sub by auto
  qed
  have 3: "show_legend opt \<longrightarrow> legend_lines opt ?ws =
      [glyphs_of (chars opt) ! 0 @ [32] @ l @ [32] @ str_int v @ ustr '' (100.0%)'']"
    by (simp add: legend_lines_def single_legend [OF assms])
  from 1 2 3 show ?thesis by blast
qed

theorem single_wedge_fill_witness:
  "valid_input [ustr ''A''] [10] \<and>
   length (scan_chars opt5 (wedges_of (chars opt5) [ustr ''A''] [10]) 0 0) = 16 \<and>
   scan_border opt5 0 0 = 0 \<and>
   cell opt5 (wedges_of (chars opt5) [ustr ''A''] [10]) 0 0 = [9608] \<and>
   show_legend opt5 \<and>
   legend_lines opt5 (wedges_of (chars opt5) [ustr ''A''] [10]) = [9608 # ustr '' A 10 (100.0%)'']"
proof -
  let ?ws = "wedges_of (chars opt5) [ustr ''A''] [10]"
  have v: "valid_input [ustr ''A''] [10]" by (simp add: valid_input_def)
  have n: "length (scan_chars opt5 ?ws 0 0) = 16" by (simp add: scan_chars_def kept_opt5_00)
  have g: "glyphs_of (chars opt5) ! 0 = [9608]"
    by (simp add: opt5_fields glyphs_of_def default_chars_def)
  have a: "scan_chars opt5 ?ws 0 0 \<noteq> [] \<and>
      \<not> (border opt5 \<noteq> [] \<and> length (scan_chars opt5 ?ws 0 0) < 3 * scan_border opt5 0 0)"
    using n by (auto simp: scan_border_opt5_00)
  note t = single_wedge_fill [OF v, of opt5 0 0]
  from t a have c: "cell opt5 ?ws 0 0 = [9608]" using g by simp
  from t have "legend_lines opt5 ?ws = [[9608] @ [32] @ ustr ''A'' @ [32] @ str_int 10 @ ustr '' (100.0%)'']"
    using g by (simp add: opt5_fields)
  then have "legend_lines opt5 ?ws = [9608 # ustr '' A 10 (100.0%)'']"
    by (simp add: str_int_10 ustr_def)
  with v n c show ?thesis by (simp add: scan_border_opt5_00 opt5_fields)
qed

text \<open>
  Claim C6.  In every row of the grid, label placement leaves every column outside the
  row's rendered span (from the first to the last non-blank column of the row as the
  rasterizer produced it) as it was: whatever grid \<open>lines\<close> the overlay starts from,
  in particular the rasterized one, a column outside the span of its row holds the same
  character afterwards.
\<close>

theorem labels_inside_span:
  assumes "overlay opt ws lines = Inr lines'" and "r < length lines"
    and "c < length (lines ! r)" and "\<not> in_span (lines ! r) c"
  shows "lines' ! r ! c = lines ! r ! c"
  using assms by (rule overlay_outside)

theorem labels_inside_span_witness:
  "overlay default_options (wedges_of [] [ustr ''A''] [10]) [[32, 35, 35, 35, 35, 35, 32]] =
     Inr [[32, 35, 32, 65, 32, 35, 32]] \<and>
   (0 :: nat) < length [[32, 35, 35, 35, 35, 35, 32 :: nat]] \<and>
   6 < length ([[32, 35, 35, 35, 35, 35, 32 :: nat]] ! 0) \<and>
   \<not> in_span ([[32, 35, 35, 35, 35, 35, 32]] ! 0) 6 \<and>
   [[32, 35, 32, 65, 32, 35, 32 :: nat]] ! 0 ! 6 = [[32, 35, 35, 35, 35, 35, 32]] ! 0 ! 6"
proof -
  have s: "\<not> in_span ([[32, 35, 35, 35, 35, 35, 32]] ! 0) 6"
    by (simp add: in_span_def last_nonblank_def)
  have r: "(0 :: nat) < length [[32, 35, 35, 35, 35, 35, 32 :: nat]]" by simp
  have c: "6 < length ([[32, 35, 35, 35, 35, 35, 32 :: nat]] ! 0)" by simp
  from labels_inside_span [OF overlay_example r c s] overlay_example s show ?thesis by simp
qed

text \<open>
  Claim C7.  For every valid input with a radius that is not negative and glyphs and
  border of one character, the rasterized body has \<open>2\<cdot>radius+1\<close> rows of \<open>2\<cdot>radius+1\<close>
  characters each, and the label overlay returns a grid with the same number of rows
  and the same row lengths.
\<close>

theorem raster_dimensions:
  assumes "valid_input labels counts" and "0 \<le> radius opt"
    and "\<forall>g \<in> set (chars opt). length g = 1" and "length (border opt) \<le> 1"
  shows "length (raster opt (wedges_of (chars opt) labels counts)) = nat (2 * radius opt + 1) \<and>
         (\<forall>row \<in> set (raster opt (wedges_of (chars opt) labels counts)).
            length row = nat (2 * radius opt + 1)) \<and>
         (\<exists>lines'. overlay opt (wedges_of (chars opt) labels counts)
                      (raster opt (wedges_of (chars opt) labels counts)) = Inr lines' \<and>
            length lines' = nat (2 * radius opt + 1) \<and>
            (\<forall>row \<in> set lines'. length row = nat (2 * radius opt + 1)))"
proof -
  let ?ws = "wedges_of (chars opt) labels counts"
  have g: "\<forall>w \<in> set ?ws. length (fill_char w) = 1"
    using assms(3) by (rule glyph_lengths)
  have rows: "\<forall>row \<in> set (raster opt ?ws). length row = nat (2 * radius opt + 1)"
  proof
    fix row assume "row \<in> set (raster opt ?ws)"
    with g assms(4) show "length row = nat (2 * radius opt + 1)"
      by (rule raster_row_length)
  qed
  have "raster opt ?ws \<noteq> []"
    using assms(2) length_raster [of opt ?ws] by auto
  from overlay_total [OF this, of opt ?ws] obtain lines' where
    o: "overlay opt ?ws (raster opt ?ws) = Inr lines'"
    and m: "map length lines' = map length (raster opt ?ws)" by blast
  from m have l: "length lines' = nat (2 * radius opt + 1)"
    using length_raster [of opt ?ws] by (metis length_map)
  have "\<forall>row \<in> set lines'. length row = nat (2 * radius opt + 1)"
  proof
    fix row assume "row \<in> set lines'"
    then have "length row \<in> set (map length lines')" by simp
    then have "length row \<in> set (map length (raster opt ?ws))" using m by simp
    then show "length row = nat (2 * radius opt + 1)" using rows by auto
  qed
  with o l rows length_raster [of opt ?ws] show ?thesis by blast
qed

theorem raster_dimensions_witness:
  "valid_input [ustr ''A''] [10] \<and> 0 \<le> radius opt1 \<and> chars opt1 = [] \<and>
   length (border opt1) \<le> 1 \<and>
   length (raster opt1 (wedges_of (chars opt1) [ustr ''A''] [10])) = 3 \<and>
   (\<exists>lines'. overlay opt1 (wedges_of (chars opt1) [ustr ''A''] [10])
                 (raster opt1 (wedges_of (chars opt1) [ustr ''A''] [10])) = Inr lines' \<and>
              length lines' = 3)"
proof -
  have v: "valid_input [ustr ''A''] [10]" by (simp add: valid_input_def)
  have r: "0 \<le> radius opt1" by (simp add: opt1_fields)
  have e: "chars opt1 = []" by (simp add: opt1_def default_options_def)
  then have g: "\<forall>g \<in> set (chars opt1). length g = 1" by simp
  have b: "length (border opt1) \<le> 1" by (simp add: opt1_fields)
  from raster_dimensions [OF v r g b] v r e b show ?thesis
    by (auto simp: opt1_fields)
qed







end
